theory Spec2Isabelle
  imports Complex_Main
begin

section \<open>Python floats\<close>

text \<open>
  Every geometric parameter of \<^verbatim>\<open>arc_shape_svg\<close> is a Python \<^verbatim>\<open>float\<close>, an IEEE 754
  binary64 number. A float is modelled by what it denotes: a finite float by the rational
  number it stands for (\<open>Fin 0\<close> is \<open>+0.0\<close>), and the four values that are no rational
  number by constructors of their own. Each arithmetic operation computes the exact
  rational result and rounds it to the nearest binary64 number, ties to the even
  significand, as the hardware does.
\<close>

datatype float = Fin rat | NegZero | PosInf | NegInf | NaN

text \<open>The number of binary digits of a positive integer.\<close>

function bit_length :: "int \<Rightarrow> int" where
  "bit_length n = (if n \<le> 0 then 0 else 1 + bit_length (n div 2))"
  by pat_completeness auto
termination
  by (relation "measure nat") auto

definition pow2 :: "int \<Rightarrow> rat" where
  "pow2 e = (if 0 \<le> e then 2 ^ nat e else 1 / 2 ^ nat (- e))"

text \<open>For \<open>0 < q\<close>, the exponent \<open>k\<close> with \<open>2 ^ k \<le> q < 2 ^ (k + 1)\<close>.\<close>

definition ilog2 :: "rat \<Rightarrow> int" where
  "ilog2 q = (case quotient_of q of (p, d) \<Rightarrow>
     let k = bit_length p - bit_length d
     in if pow2 k \<le> q then k else k - 1)"

definition round_half_even :: "rat \<Rightarrow> int" where
  "round_half_even q = (let f = \<lfloor>q\<rfloor>; r = q - of_int f in
     if r < 1 / 2 then f else if 1 / 2 < r then f + 1 else if even f then f else f + 1)"

text \<open>
  Rounding a rational to binary64: 53 significant bits, the least exponent of a unit in
  the last place is \<open>-1074\<close> (subnormal numbers), and a result of magnitude \<open>2 ^ 1024\<close> or
  more is an infinity. A nonzero number that rounds to zero keeps its sign.
\<close>

definition round_to_float :: "rat \<Rightarrow> float" where
  "round_to_float q =
     (if q = 0 then Fin 0 else
      let e = max (ilog2 \<bar>q\<bar> - 52) (- 1074);
          v = of_int (round_half_even (\<bar>q\<bar> / pow2 e)) * pow2 e
      in if v = 0 then (if q < 0 then NegZero else Fin 0)
         else if 1024 \<le> ilog2 v then (if q < 0 then NegInf else PosInf)
         else Fin (if q < 0 then - v else v))"

fun fneg :: "float \<Rightarrow> float" where
  "fneg (Fin q) = (if q = 0 then NegZero else Fin (- q))"
| "fneg NegZero = Fin 0"
| "fneg PosInf = NegInf"
| "fneg NegInf = PosInf"
| "fneg NaN = NaN"

text \<open>Python's \<^verbatim>\<open>a + b\<close> on floats.\<close>

fun fadd :: "float \<Rightarrow> float \<Rightarrow> float" where
  "fadd NaN b = NaN"
| "fadd a NaN = NaN"
| "fadd PosInf NegInf = NaN"
| "fadd NegInf PosInf = NaN"
| "fadd PosInf b = PosInf"
| "fadd NegInf b = NegInf"
| "fadd a PosInf = PosInf"
| "fadd a NegInf = NegInf"
| "fadd NegZero b = b"
| "fadd a NegZero = a"
| "fadd (Fin a) (Fin b) = round_to_float (a + b)"

text \<open>Python's \<^verbatim>\<open>a - b\<close> on floats.\<close>

definition fsub :: "float \<Rightarrow> float \<Rightarrow> float" where
  "fsub a b = fadd a (fneg b)"

fun sign_bit :: "float \<Rightarrow> bool" where
  "sign_bit (Fin q) = (q < 0)"
| "sign_bit NegZero = True"
| "sign_bit PosInf = False"
| "sign_bit NegInf = True"
| "sign_bit NaN = False"

fun is_zero :: "float \<Rightarrow> bool" where
  "is_zero (Fin q) = (q = 0)"
| "is_zero NegZero = True"
| "is_zero a = False"

fun is_inf :: "float \<Rightarrow> bool" where
  "is_inf PosInf = True"
| "is_inf NegInf = True"
| "is_inf a = False"

text \<open>Python's \<^verbatim>\<open>a * b\<close> on floats.\<close>

fun fmul :: "float \<Rightarrow> float \<Rightarrow> float" where
  "fmul NaN b = NaN"
| "fmul a NaN = NaN"
| "fmul (Fin a) (Fin b) =
     (if a = 0 \<or> b = 0 then (if (a < 0) \<noteq> (b < 0) then NegZero else Fin 0)
      else round_to_float (a * b))"
| "fmul a b =
     (if is_inf a \<and> is_zero b \<or> is_zero a \<and> is_inf b then NaN
      else if is_inf a \<or> is_inf b
        then (if sign_bit a \<noteq> sign_bit b then NegInf else PosInf)
      else (if sign_bit a \<noteq> sign_bit b then NegZero else Fin 0))"

text \<open>Python's \<^verbatim>\<open>a < b\<close> and \<^verbatim>\<open>a > b\<close> on floats: false whenever one side is NaN.\<close>

fun flt :: "float \<Rightarrow> float \<Rightarrow> bool" where
  "flt NaN b = False"
| "flt a NaN = False"
| "flt PosInf b = False"
| "flt a NegInf = False"
| "flt a PosInf = True"
| "flt NegInf b = True"
| "flt NegZero NegZero = False"
| "flt NegZero (Fin b) = (0 < b)"
| "flt (Fin a) NegZero = (a < 0)"
| "flt (Fin a) (Fin b) = (a < b)"

definition fgt :: "float \<Rightarrow> float \<Rightarrow> bool" where
  "fgt a b = flt b a"

text \<open>Python's \<^verbatim>\<open>a <= b\<close> on floats.\<close>

definition fle :: "float \<Rightarrow> float \<Rightarrow> bool" where
  "fle a b = (a \<noteq> NaN \<and> b \<noteq> NaN \<and> \<not> flt b a)"

datatype error = AssertionError string | OverflowError string

text \<open>
  An \<^verbatim>\<open>int\<close> operand of a float operation is converted to a float first: rounded to
  the nearest float, and an \<^verbatim>\<open>OverflowError\<close> when it is too large for any.
\<close>

definition float_of_int :: "int \<Rightarrow> error + float" where
  "float_of_int n =
     (case round_to_float (of_int n) of
        PosInf \<Rightarrow> Inl (OverflowError ''int too large to convert to float'')
      | NegInf \<Rightarrow> Inl (OverflowError ''int too large to convert to float'')
      | f \<Rightarrow> Inr f)"

subsection \<open>Formatting\<close>

definition digit_char :: "int \<Rightarrow> char" where
  "digit_char d = ''0123456789'' ! nat d"

text \<open>The decimal digits of an integer that is not negative.\<close>

function digits :: "int \<Rightarrow> string" where
  "digits n = (if n < 10 then [digit_char n] else digits (n div 10) @ [digit_char (n mod 10)])"
  by pat_completeness auto
termination
  by (relation "measure nat") auto

fun sign_str :: "float \<Rightarrow> string" where
  "sign_str a = (if sign_bit a then ''-'' else '''')"

text \<open>
  The format \<^verbatim>\<open>{a:.2f}\<close>: the exact value of the float rounded to two decimals, a tie
  to the even digit, written with all its integer digits and exactly two decimals.
\<close>

fun format_2f :: "float \<Rightarrow> string" where
  "format_2f NaN = ''nan''"
| "format_2f PosInf = ''inf''"
| "format_2f NegInf = ''-inf''"
| "format_2f NegZero = ''-0.00''"
| "format_2f (Fin q) =
     (let n = round_half_even (\<bar>q\<bar> * 100)
      in sign_str (Fin q) @ digits (n div 100) @ ''.'' @
         [digit_char (n mod 100 div 10), digit_char (n mod 10)])"

text \<open>The format \<^verbatim>\<open>{a:.0f}\<close>: the float rounded to an integer, with no decimal point.\<close>

fun format_0f :: "float \<Rightarrow> string" where
  "format_0f NaN = ''nan''"
| "format_0f PosInf = ''inf''"
| "format_0f NegInf = ''-inf''"
| "format_0f NegZero = ''-0''"
| "format_0f (Fin q) = sign_str (Fin q) @ digits (round_half_even \<bar>q\<bar>)"

subsection \<open>\<^verbatim>\<open>str\<close> of a float\<close>

text \<open>
  The format \<^verbatim>\<open>{a}\<close> of a float is \<^verbatim>\<open>str(a)\<close>: the shortest decimal that reads back
  as the same float (the nearest to it among the shortest), in scientific notation when
  the decimal point would stand more than 16 digits to the right of the first digit or
  more than 3 zeros to its left.
\<close>

function dec_length :: "int \<Rightarrow> int" where
  "dec_length n = (if n \<le> 0 then 0 else 1 + dec_length (n div 10))"
  by pat_completeness auto
termination
  by (relation "measure nat") auto

definition pow10 :: "int \<Rightarrow> rat" where
  "pow10 e = (if 0 \<le> e then 10 ^ nat e else 1 / 10 ^ nat (- e))"

text \<open>For \<open>0 < q\<close>, the exponent \<open>k\<close> with \<open>10 ^ k \<le> q < 10 ^ (k + 1)\<close>.\<close>

definition ilog10 :: "rat \<Rightarrow> int" where
  "ilog10 q = (case quotient_of q of (p, d) \<Rightarrow>
     let k = dec_length p - dec_length d
     in if pow10 k \<le> q then k else k - 1)"

text \<open>
  The decimals \<open>d * 10 ^ s\<close> with \<open>k\<close> significant digits next to \<open>q\<close>, below and
  above: the one that reads back as \<open>q\<close>, the nearer one when both do.
\<close>

definition shortest_at :: "int \<Rightarrow> rat \<Rightarrow> (int \<times> int) option" where
  "shortest_at k q =
     (let s = ilog10 q - k + 1;
          lo = \<lfloor>q / pow10 s\<rfloor>;
          hi = lo + 1;
          ok_lo = (round_to_float (of_int lo * pow10 s) = Fin q);
          ok_hi = (round_to_float (of_int hi * pow10 s) = Fin q);
          d_lo = q - of_int lo * pow10 s;
          d_hi = of_int hi * pow10 s - q
      in if ok_lo \<and> ok_hi
           then (if d_lo < d_hi \<or> d_lo = d_hi \<and> even lo then Some (lo, s) else Some (hi, s))
         else if ok_lo then Some (lo, s)
         else if ok_hi then Some (hi, s)
         else None)"

text \<open>From \<open>k\<close> digits on, \<open>n\<close> more lengths are tried; 17 digits always read back.\<close>

fun shortest :: "nat \<Rightarrow> int \<Rightarrow> rat \<Rightarrow> int \<times> int" where
  "shortest 0 k q = (let s = ilog10 q - k + 1 in (round_half_even (q / pow10 s), s))"
| "shortest (Suc n) k q =
     (case shortest_at k q of Some r \<Rightarrow> r | None \<Rightarrow> shortest n (k + 1) q)"

function strip_zeros :: "int \<times> int \<Rightarrow> int \<times> int" where
  "strip_zeros (d, s) =
     (if d \<noteq> 0 \<and> d mod 10 = 0 then strip_zeros (d div 10, s + 1) else (d, s))"
  by pat_completeness auto
termination
  by (relation "measure (\<lambda>(d, s). nat \<bar>d\<bar>)") auto

definition repr_digits :: "rat \<Rightarrow> string" where
  "repr_digits q =
     (case strip_zeros (shortest 16 1 q) of (d, s) \<Rightarrow>
        let ds = digits d; nd = int (length ds); decpt = nd + s
        in if decpt \<le> - 4 \<or> 16 < decpt then
             take 1 ds @ (if 1 < nd then ''.'' @ drop 1 ds else '''') @ ''e'' @
             (if decpt - 1 < 0 then ''-'' else ''+'') @
             (if \<bar>decpt - 1\<bar> < 10 then ''0'' else '''') @ digits \<bar>decpt - 1\<bar>
           else if decpt \<le> 0 then ''0.'' @ replicate (nat (- decpt)) CHR ''0'' @ ds
           else if nd \<le> decpt then ds @ replicate (nat (decpt - nd)) CHR ''0'' @ ''.0''
           else take (nat decpt) ds @ ''.'' @ drop (nat decpt) ds)"

fun float_str :: "float \<Rightarrow> string" where
  "float_str NaN = ''nan''"
| "float_str PosInf = ''inf''"
| "float_str NegInf = ''-inf''"
| "float_str NegZero = ''-0.0''"
| "float_str (Fin q) =
     (if q = 0 then ''0.0'' else sign_str (Fin q) @ repr_digits \<bar>q\<bar>)"

section \<open>The arc-shape generator\<close>

text \<open>
  The parameters of \<^verbatim>\<open>arc_shape_svg\<close>, under the names and at the types of its
  signature: \<open>n_semicircles\<close> is a Python \<^verbatim>\<open>int\<close>, the geometry is in floats, the
  styles are strings.
\<close>

record params =
  n_semicircles :: int
  R :: float
  u_width :: float
  u_depth :: float
  ext_above :: float
  stroke :: string
  stroke_width :: float
  margin :: float
  linecap :: string
  linejoin :: string
  background :: string

text \<open>The signature's default values; the repetition count has none.\<close>

definition default_params :: "int \<Rightarrow> params" where
  "default_params n =
     \<lparr>n_semicircles = n, R = Fin 24, u_width = Fin 16, u_depth = Fin 28,
      ext_above = Fin 12, stroke = ''black'', stroke_width = Fin (5 / 2),
      margin = Fin 16, linecap = ''round'', linejoin = ''round'',
      background = ''white''\<rparr>"

subsection \<open>Layout\<close>

definition top_y :: "params \<Rightarrow> float" where
  "top_y p = margin p"

definition baseline :: "params \<Rightarrow> float" where
  "baseline p = fadd (fadd (top_y p) (R p)) (ext_above p)"

definition arc_apex_y :: "params \<Rightarrow> float" where
  "arc_apex_y p = fsub (baseline p) (R p)"

text \<open>
  \<^verbatim>\<open>pattern_width = n_semicircles * (u_width + 2 * R) + u_width\<close>, where \<open>nf\<close> is
  the repetition count converted to a float, as the multiplication does.
\<close>

definition pattern_width :: "float \<Rightarrow> params \<Rightarrow> float" where
  "pattern_width nf p =
     fadd (fmul nf (fadd (u_width p) (fmul (Fin 2) (R p)))) (u_width p)"

definition total_width :: "float \<Rightarrow> params \<Rightarrow> float" where
  "total_width nf p = fadd (pattern_width nf p) (fmul (Fin 2) (margin p))"

definition total_height :: "params \<Rightarrow> float" where
  "total_height p = fadd (fadd (baseline p) (u_depth p)) (margin p)"

subsection \<open>Path commands\<close>

text \<open>
  The source appends each command to \<open>cmds\<close> as formatted text. Here a command is kept
  as a value and \<open>render_cmd\<close> gives the text of its format string; the rotation and the
  two flags of an arc are the literal \<^verbatim>\<open>0 0 1\<close> of the source.
\<close>

datatype cmd =
    MoveTo float float
  | VLine float
  | HLine float
  | Arc float float nat nat nat float float

fun render_cmd :: "cmd \<Rightarrow> string" where
  "render_cmd (MoveTo x y) = ''M '' @ format_2f x @ '','' @ format_2f y"
| "render_cmd (VLine y) = ''V '' @ format_2f y"
| "render_cmd (HLine x) = ''H '' @ format_2f x"
| "render_cmd (Arc rx ry rot large sweep x y) =
     ''A '' @ format_2f rx @ '','' @ format_2f ry @ '' '' @ digits (int rot) @ '' '' @
     digits (int large) @ '' '' @ digits (int sweep) @ '' '' @
     format_2f x @ '','' @ format_2f y"

text \<open>The state of the drawing loop: the cursor \<open>x\<close> and the commands so far.\<close>

type_synonym pen = "float \<times> cmd list"

text \<open>One U: down, right by \<open>u_width\<close>, up.\<close>

definition u_shape :: "params \<Rightarrow> pen \<Rightarrow> pen" where
  "u_shape p s =
     (case s of (x, cmds) \<Rightarrow>
        let cmds = cmds @ [VLine (fadd (baseline p) (u_depth p))];
            x = fadd x (u_width p);
            cmds = cmds @ [HLine x];
            cmds = cmds @ [VLine (baseline p)]
        in (x, cmds))"

text \<open>One semicircle to the right, ending \<open>2 * R\<close> further on the baseline.\<close>

definition semicircle :: "params \<Rightarrow> pen \<Rightarrow> pen" where
  "semicircle p s =
     (case s of (x, cmds) \<Rightarrow>
        let x_arc_end = fadd x (fmul (Fin 2) (R p));
            cmds = cmds @ [Arc (R p) (R p) 0 0 1 x_arc_end (baseline p)]
        in (x_arc_end, cmds))"

definition loop_body :: "params \<Rightarrow> pen \<Rightarrow> pen" where
  "loop_body p s = semicircle p (u_shape p s)"

text \<open>\<^verbatim>\<open>for _ in range(k)\<close>: the body, \<open>k\<close> times.\<close>

primrec for_range :: "nat \<Rightarrow> ('s \<Rightarrow> 's) \<Rightarrow> 's \<Rightarrow> 's" where
  "for_range 0 body s = s"
| "for_range (Suc k) body s = for_range k body (body s)"

definition path_cmds :: "params \<Rightarrow> cmd list" where
  "path_cmds p =
     (let x = margin p;
          cmds = [MoveTo x (baseline p)];
          cmds = cmds @ [VLine (top_y p)];
          cmds = cmds @ [VLine (baseline p)];
          s = for_range (nat (n_semicircles p)) (loop_body p) (x, cmds);
          s = u_shape p s;
          cmds = snd s @ [VLine (top_y p)];
          left_x = margin p
      in cmds @ [HLine left_x])"

text \<open>\<^verbatim>\<open>sep.join(xs)\<close>.\<close>

fun join :: "string \<Rightarrow> string list \<Rightarrow> string" where
  "join sep [] = []"
| "join sep [x] = x"
| "join sep (x # y # ys) = x @ sep @ join sep (y # ys)"

definition path_d :: "params \<Rightarrow> string" where
  "path_d p = join '' '' (map render_cmd (path_cmds p))"

subsection \<open>The document\<close>

definition quoted :: "string \<Rightarrow> string" where
  "quoted s = [CHR 0x22] @ s @ [CHR 0x22]"

definition newline :: string where
  "newline = [CHR 0x0A]"

text \<open>
  The text of the final format string, given its fields already formatted: the width
  and the height (each is used three times), the background, the path data, and the
  four stroke attributes.
\<close>

definition svg_text ::
  "string \<Rightarrow> string \<Rightarrow> string \<Rightarrow> string \<Rightarrow> string \<Rightarrow> string \<Rightarrow> string \<Rightarrow> string \<Rightarrow> string"
where
  "svg_text w h bg d st sw lc lj =
     ''<svg xmlns='' @ quoted ''http://www.w3.org/2000/svg'' @ newline @
     ''     width='' @ quoted w @ '' height='' @ quoted h @ newline @
     ''     viewBox='' @ quoted (''0 0 '' @ w @ '' '' @ h) @ ''>'' @ newline @
     ''  <rect x='' @ quoted ''0'' @ '' y='' @ quoted ''0'' @ '' width='' @ quoted w @
       '' height='' @ quoted h @ '' fill='' @ quoted bg @ ''/>'' @ newline @
     ''  <path d='' @ quoted d @ '' fill='' @ quoted ''none'' @ '' stroke='' @ quoted st @
       '' stroke-width='' @ quoted sw @ newline @
     ''        stroke-linecap='' @ quoted lc @ '' stroke-linejoin='' @ quoted lj @
       ''/>'' @ newline @
     ''</svg>''"

text \<open>
  \<^verbatim>\<open>arc_shape_svg\<close>. The three \<^verbatim>\<open>assert\<close> statements come first, in the source's
  order, each with its message. Converting the repetition count for the product in
  \<^verbatim>\<open>pattern_width\<close> is the one other statement that can raise. The result is the
  document, or the exception raised instead of it.
\<close>

definition arc_shape_svg :: "params \<Rightarrow> error + string" where
  "arc_shape_svg p =
     (if \<not> 1 \<le> n_semicircles p then Inl (AssertionError ''n_semicircles must be >= 1'')
      else if \<not> fgt (ext_above p) (Fin 0) then Inl (AssertionError ''ext_above must be > 0'')
      else if \<not> flt (top_y p) (arc_apex_y p)
        then Inl (AssertionError ''Increase ext_above or margin to rise above the arc apex.'')
      else
        (case float_of_int (n_semicircles p) of
           Inl e \<Rightarrow> Inl e
         | Inr nf \<Rightarrow>
             Inr (svg_text (format_0f (total_width nf p)) (format_0f (total_height p))
                    (background p) (path_d p) (stroke p) (float_str (stroke_width p))
                    (linecap p) (linejoin p))))"

text \<open>
  The specification's names for the failures: \<open>InvalidParameter\<close> is one of the first
  two assertions, \<open>GeometryError\<close> the third.
\<close>

definition InvalidParameter :: "error \<Rightarrow> bool" where
  "InvalidParameter e =
     (e = AssertionError ''n_semicircles must be >= 1'' \<or>
      e = AssertionError ''ext_above must be > 0'')"

definition GeometryError :: "error \<Rightarrow> bool" where
  "GeometryError e =
     (e = AssertionError ''Increase ext_above or margin to rise above the arc apex.'')"

section \<open>Notions the properties are stated with\<close>

text \<open>
  The current point of a path: every command of the generator is absolute, so \<open>M\<close> and
  \<open>A\<close> set both coordinates, \<open>V\<close> sets the height and \<open>H\<close> the abscissa.
\<close>

fun pen_step :: "float \<times> float \<Rightarrow> cmd \<Rightarrow> float \<times> float" where
  "pen_step (px, py) (MoveTo x y) = (x, y)"
| "pen_step (px, py) (VLine y) = (px, y)"
| "pen_step (px, py) (HLine x) = (x, py)"
| "pen_step (px, py) (Arc rx ry rot large sweep x y) = (x, y)"

text \<open>The current point before command \<open>i\<close> of a path that starts at the origin.\<close>

definition pen_before :: "cmd list \<Rightarrow> nat \<Rightarrow> float \<times> float" where
  "pen_before cs i = foldl pen_step (Fin 0, Fin 0) (take i cs)"

fun is_arc :: "cmd \<Rightarrow> bool" where
  "is_arc (Arc rx ry rot large sweep x y) = True"
| "is_arc c = False"

text \<open>The three commands of a U drawn with the cursor at \<open>x\<close>, and the arc after it.\<close>

definition u_cmds :: "params \<Rightarrow> float \<Rightarrow> cmd list" where
  "u_cmds p x =
     [VLine (fadd (baseline p) (u_depth p)), HLine (fadd x (u_width p)), VLine (baseline p)]"

definition arc_cmd :: "params \<Rightarrow> float \<Rightarrow> cmd" where
  "arc_cmd p x = Arc (R p) (R p) 0 0 1 (fadd x (fmul (Fin 2) (R p))) (baseline p)"

text \<open>The cursor after \<open>k\<close> repetitions that start with the cursor at \<open>x\<close>.\<close>

primrec cursor_after :: "params \<Rightarrow> nat \<Rightarrow> float \<Rightarrow> float" where
  "cursor_after p 0 x = x"
| "cursor_after p (Suc k) x =
     cursor_after p k (fadd (fadd x (u_width p)) (fmul (Fin 2) (R p)))"

text \<open>The commands of \<open>k\<close> repetitions that start with the cursor at \<open>x\<close>.\<close>

primrec reps :: "params \<Rightarrow> nat \<Rightarrow> float \<Rightarrow> cmd list" where
  "reps p 0 x = []"
| "reps p (Suc k) x =
     u_cmds p x @ arc_cmd p (fadd x (u_width p)) #
     reps p k (fadd (fadd x (u_width p)) (fmul (Fin 2) (R p)))"

text \<open>
  The completed U-shapes of a path: the places where, with the current point on the
  baseline at abscissa \<open>x\<close>, the next three commands are the down, right and up of a U
  drawn from \<open>x\<close>.
\<close>

fun count_u :: "params \<Rightarrow> float \<times> float \<Rightarrow> cmd list \<Rightarrow> nat" where
  "count_u p pos (c1 # c2 # c3 # cs) =
     (if snd pos = baseline p \<and> [c1, c2, c3] = u_cmds p (fst pos) then 1 else 0) +
     count_u p (pen_step pos c1) (c2 # c3 # cs)"
| "count_u p pos cs = 0"

fun is_vline :: "cmd \<Rightarrow> bool" where
  "is_vline (VLine y) = True"
| "is_vline c = False"

fun is_hline :: "cmd \<Rightarrow> bool" where
  "is_hline (HLine x) = True"
| "is_hline c = False"

text \<open>
  Every arc of a path is the generator's arc, drawn from the current point, which lies on
  the baseline.
\<close>

fun arcs_ok :: "params \<Rightarrow> float \<times> float \<Rightarrow> cmd list \<Rightarrow> bool" where
  "arcs_ok p pos [] = True"
| "arcs_ok p pos (c # cs) =
     ((is_arc c \<longrightarrow> snd pos = baseline p \<and> c = arc_cmd p (fst pos)) \<and>
      arcs_ok p (pen_step pos c) cs)"

subsection \<open>Texts of numbers\<close>

text \<open>
  What a text of a number looks like and what it denotes, to state how coordinates and
  sizes are rendered; and the tokens of a path-data string, split at spaces and commas.
\<close>

fun is_finite :: "float \<Rightarrow> bool" where
  "is_finite (Fin q) = True"
| "is_finite NegZero = True"
| "is_finite a = False"

fun float_value :: "float \<Rightarrow> rat" where
  "float_value (Fin q) = q"
| "float_value a = 0"

definition is_digit :: "char \<Rightarrow> bool" where
  "is_digit c = (c \<in> set ''0123456789'')"

definition digit_value :: "char \<Rightarrow> int" where
  "digit_value c = int (of_char c) - 48"

definition int_of_digits :: "string \<Rightarrow> int" where
  "int_of_digits s = foldl (\<lambda>a c. 10 * a + digit_value c) 0 s"

definition unsigned :: "string \<Rightarrow> string" where
  "unsigned s = (if take 1 s = ''-'' then drop 1 s else s)"

fun two_decimals_rev :: "string \<Rightarrow> bool" where
  "two_decimals_rev (d2 # d1 # dot # ip) =
     (is_digit d2 \<and> is_digit d1 \<and> dot = CHR ''.'' \<and> ip \<noteq> [] \<and> list_all is_digit ip)"
| "two_decimals_rev s = False"

definition two_decimals :: "string \<Rightarrow> bool" where
  "two_decimals s = two_decimals_rev (rev (unsigned s))"

definition integer_text :: "string \<Rightarrow> bool" where
  "integer_text s = (unsigned s \<noteq> [] \<and> list_all is_digit (unsigned s))"

definition decimal_value :: "string \<Rightarrow> rat" where
  "decimal_value s =
     (let t = unsigned s;
          ip = takeWhile (\<lambda>c. c \<noteq> CHR ''.'') t;
          fp = drop 1 (dropWhile (\<lambda>c. c \<noteq> CHR ''.'') t);
          v = of_int (int_of_digits ip) + of_int (int_of_digits fp) / 10 ^ length fp
      in if take 1 s = ''-'' then - v else v)"


fun tokens :: "string \<Rightarrow> string list" where
  "tokens [] = [[]]"
| "tokens (c # cs) =
     (if c = CHR '' '' \<or> c = CHR '','' then [] # tokens cs
      else (case tokens cs of [] \<Rightarrow> [[c]] | t # ts \<Rightarrow> (c # t) # ts))"

fun cmd_tokens :: "cmd \<Rightarrow> string list" where
  "cmd_tokens (MoveTo x y) = [''M'', format_2f x, format_2f y]"
| "cmd_tokens (VLine y) = [''V'', format_2f y]"
| "cmd_tokens (HLine x) = [''H'', format_2f x]"
| "cmd_tokens (Arc rx ry rot large sweep x y) =
     [''A'', format_2f rx, format_2f ry, digits (int rot), digits (int large),
      digits (int sweep), format_2f x, format_2f y]"

fun coords :: "cmd \<Rightarrow> float list" where
  "coords (MoveTo x y) = [x, y]"
| "coords (VLine y) = [y]"
| "coords (HLine x) = [x]"
| "coords (Arc rx ry rot large sweep x y) = [rx, ry, x, y]"

definition no_sep :: "string \<Rightarrow> bool" where
  "no_sep s = list_all (\<lambda>c. c \<noteq> CHR '' '' \<and> c \<noteq> CHR '','') s"

subsection \<open>The size formulas over exact numbers\<close>




subsection \<open>Inputs of the examples\<close>

text \<open>
  A margin of \<open>2 ^ 53 = 9007199254740992.0\<close>, where neighbouring floats are 2 apart, with
  radius 0 and extension 1: the sum \<open>margin + R + ext_above\<close> rounds back to the margin.
\<close>

definition absorbed_extension_params :: params where
  "absorbed_extension_params =
     (default_params 1)\<lparr>margin := Fin (2 ^ 53), R := Fin 0, ext_above := Fin 1\<rparr>"

text \<open>
  A negative radius \<open>-24.0\<close> with the tiny positive extension \<open>2 ** -60\<close> and the default
  margin 16: \<open>16.0 + -24.0\<close> is \<open>-8.0\<close>, and adding \<open>2 ** -60\<close> to it changes nothing.
\<close>

definition negative_radius_params :: params where
  "negative_radius_params =
     (default_params 1)\<lparr>R := Fin (- 24), ext_above := Fin (1 / 2 ^ 60)\<rparr>"

text \<open>A negative radius \<open>-3.0\<close> and a negative margin \<open>-2.0\<close>, two repetitions.\<close>

definition negative_geometry_params :: params where
  "negative_geometry_params = (default_params 2)\<lparr>R := Fin (- 3), margin := Fin (- 2)\<rparr>"

text \<open>
  A U-width of \<open>2 ** 1023\<close>, about \<open>8.99e307\<close>, with margin and radius 0: every
  parameter is finite, and the cursor overflows to infinity at the second U.
\<close>

definition overflowing_width_params :: params where
  "overflowing_width_params =
     (default_params 1)\<lparr>u_width := Fin (2 ^ 1023), margin := Fin 0, R := Fin 0\<rparr>"


section \<open>The structure of the path\<close>

lemma for_range_loop_body:
  "for_range k (loop_body p) (x, cmds) = (cursor_after p k x, cmds @ reps p k x)"
  by (induction k arbitrary: x cmds)
     (simp_all add: loop_body_def u_shape_def semicircle_def u_cmds_def arc_cmd_def Let_def)

lemma path_cmds_structure:
  "path_cmds p =
     [MoveTo (margin p) (baseline p), VLine (top_y p), VLine (baseline p)] @
     reps p (nat (n_semicircles p)) (margin p) @
     u_cmds p (cursor_after p (nat (n_semicircles p)) (margin p)) @
     [VLine (top_y p), HLine (margin p)]"
  by (simp add: path_cmds_def for_range_loop_body u_shape_def u_cmds_def Let_def)

lemma filter_is_arc_reps: "length (filter is_arc (reps p k x)) = k"
  by (induction k arbitrary: x) (simp_all add: u_cmds_def arc_cmd_def)

lemma foldl_pen_step_reps:
  "foldl pen_step (x, baseline p) (reps p k x) = (cursor_after p k x, baseline p)"
  by (induction k arbitrary: x) (simp_all add: u_cmds_def arc_cmd_def)

lemma count_u_not_vline:
  "\<not> is_vline c \<Longrightarrow> count_u p pos (c # cs) = count_u p (pen_step pos c) cs"
proof (cases cs)
  case Nil
  then show ?thesis by simp
next
  case (Cons c2 cs2)
  assume "\<not> is_vline c"
  then show ?thesis using Cons
    by (cases cs2; cases c) (simp_all add: u_cmds_def)
qed

lemma count_u_not_hline:
  "(\<And>c2 cs'. cs = c2 # cs' \<Longrightarrow> \<not> is_hline c2) \<Longrightarrow>
   count_u p pos (c # cs) = count_u p (pen_step pos c) cs"
proof (cases cs)
  case Nil
  then show ?thesis by simp
next
  case (Cons c2 cs2)
  assume "\<And>c2 cs'. cs = c2 # cs' \<Longrightarrow> \<not> is_hline c2"
  then have "\<not> is_hline c2" using Cons by simp
  then show ?thesis using Cons
    by (cases cs2; cases c2) (simp_all add: u_cmds_def)
qed

lemma count_u_u_cmds:
  assumes "\<not> is_hline c"
  shows "count_u p (x, baseline p) (u_cmds p x @ c # cs) =
         Suc (count_u p (fadd x (u_width p), baseline p) (c # cs))"
proof -
  have "count_u p (x, baseline p) (u_cmds p x @ c # cs) =
        Suc (count_u p (x, fadd (baseline p) (u_depth p))
               (HLine (fadd x (u_width p)) # VLine (baseline p) # c # cs))"
    by (simp add: u_cmds_def)
  also have "count_u p (x, fadd (baseline p) (u_depth p))
               (HLine (fadd x (u_width p)) # VLine (baseline p) # c # cs) =
             count_u p (fadd x (u_width p), fadd (baseline p) (u_depth p))
               (VLine (baseline p) # c # cs)"
    by (subst count_u_not_vline) simp_all
  also have "\<dots> = count_u p (fadd x (u_width p), baseline p) (c # cs)"
    using assms by (subst count_u_not_hline) simp_all
  finally show ?thesis .
qed

lemma count_u_reps:
  assumes "rest \<noteq> []" and "\<not> is_hline (hd rest)"
  shows "count_u p (x, baseline p) (reps p k x @ rest) =
         k + count_u p (cursor_after p k x, baseline p) rest"
proof (induction k arbitrary: x)
  case 0
  show ?case by simp
next
  case (Suc k)
  let ?x1 = "fadd x (u_width p)"
  let ?x2 = "fadd ?x1 (fmul (Fin 2) (R p))"
  have "count_u p (x, baseline p) (reps p (Suc k) x @ rest) =
        count_u p (x, baseline p) (u_cmds p x @ arc_cmd p ?x1 # (reps p k ?x2 @ rest))"
    by simp
  also have "\<dots> = Suc (count_u p (?x1, baseline p) (arc_cmd p ?x1 # (reps p k ?x2 @ rest)))"
    by (rule count_u_u_cmds) (simp add: arc_cmd_def)
  also have "count_u p (?x1, baseline p) (arc_cmd p ?x1 # (reps p k ?x2 @ rest)) =
             count_u p (?x2, baseline p) (reps p k ?x2 @ rest)"
    by (subst count_u_not_vline) (simp_all add: arc_cmd_def)
  also have "\<dots> = k + count_u p (cursor_after p k ?x2, baseline p) rest"
    by (rule Suc.IH)
  finally show ?case by simp
qed

lemma reps_head:
  "\<exists>cs. reps p k x @ u_cmds p y @ rest = VLine (fadd (baseline p) (u_depth p)) # cs"
  by (cases k) (simp_all add: u_cmds_def)

lemma count_u_path_cmds:
  "count_u p (Fin 0, Fin 0) (path_cmds p) = Suc (nat (n_semicircles p))"
proof -
  let ?k = "nat (n_semicircles p)"
  let ?xk = "cursor_after p ?k (margin p)"
  let ?rest = "u_cmds p ?xk @ [VLine (top_y p), HLine (margin p)]"
  let ?body = "reps p ?k (margin p) @ ?rest"
  obtain cs where hd: "?body = VLine (fadd (baseline p) (u_depth p)) # cs"
    using reps_head [of p ?k "margin p" ?xk "[VLine (top_y p), HLine (margin p)]"] by blast
  have "count_u p (Fin 0, Fin 0) (path_cmds p) =
        count_u p (Fin 0, Fin 0)
          (MoveTo (margin p) (baseline p) # VLine (top_y p) # VLine (baseline p) # ?body)"
    by (simp add: path_cmds_structure)
  also have "\<dots> = count_u p (margin p, baseline p) (VLine (top_y p) # VLine (baseline p) # ?body)"
    by (subst count_u_not_vline) simp_all
  also have "\<dots> = count_u p (margin p, top_y p) (VLine (baseline p) # ?body)"
    by (subst count_u_not_hline) simp_all
  also have "\<dots> = count_u p (margin p, baseline p) ?body"
    by (subst count_u_not_hline) (simp_all add: hd)
  also have "\<dots> = ?k + count_u p (?xk, baseline p) ?rest"
    by (rule count_u_reps) (simp_all add: u_cmds_def)
  also have "count_u p (?xk, baseline p) ?rest = 1"
    by (simp add: u_cmds_def)
  finally show ?thesis by simp
qed

lemma filter_is_arc_path_cmds:
  "length (filter is_arc (path_cmds p)) = nat (n_semicircles p)"
  by (simp add: path_cmds_structure filter_is_arc_reps u_cmds_def)

lemma arcs_ok_append:
  "arcs_ok p pos (xs @ ys) = (arcs_ok p pos xs \<and> arcs_ok p (foldl pen_step pos xs) ys)"
  by (induction xs arbitrary: pos) auto

lemma arcs_ok_nth:
  "arcs_ok p pos cs \<Longrightarrow> i < length cs \<Longrightarrow> is_arc (cs ! i) \<Longrightarrow>
   snd (foldl pen_step pos (take i cs)) = baseline p \<and>
   cs ! i = arc_cmd p (fst (foldl pen_step pos (take i cs)))"
proof (induction cs arbitrary: pos i)
  case Nil
  then show ?case by simp
next
  case (Cons c cs)
  show ?case
  proof (cases i)
    case 0
    then show ?thesis using Cons.prems by simp
  next
    case (Suc j)
    then show ?thesis using Cons.prems Cons.IH [of "pen_step pos c" j] by simp
  qed
qed

lemma arcs_ok_reps: "arcs_ok p (x, baseline p) (reps p k x)"
  by (induction k arbitrary: x) (simp_all add: u_cmds_def arc_cmd_def)

lemma arcs_ok_path_cmds: "arcs_ok p (Fin 0, Fin 0) (path_cmds p)"
  by (simp add: path_cmds_structure arcs_ok_append arcs_ok_reps foldl_pen_step_reps u_cmds_def)

section \<open>Float arithmetic without rounding\<close>

text \<open>
  An integer below \<open>2 ^ 53\<close> in magnitude is a float, and so are a sum and a difference
  of two such integers that stay below \<open>2 ^ 53\<close>: no rounding takes place. A power of two
  is a float up to \<open>2 ^ 1023\<close>; \<open>2 ^ 1024\<close> overflows to infinity.
\<close>

declare bit_length.simps [simp del]

lemma bit_length_bounds:
  "0 < n \<Longrightarrow> 1 \<le> bit_length n \<and> 2 ^ nat (bit_length n - 1) \<le> n \<and> n < 2 ^ nat (bit_length n)"
proof (induction n rule: bit_length.induct)
  case (1 n)
  show ?case
  proof (cases "n div 2 = 0")
    case True
    with "1.prems" have "n = 1" by presburger
    then show ?thesis by (simp add: bit_length.simps)
  next
    case False
    with "1.prems" have h: "0 < n div 2" by presburger
    define b where "b = bit_length (n div 2)"
    have ih: "1 \<le> b" "2 ^ nat (b - 1) \<le> n div 2" "n div 2 < 2 ^ nat b"
      unfolding b_def using "1.IH" "1.prems" h by simp_all
    have bl: "bit_length n = 1 + b"
      unfolding b_def using "1.prems" by (subst bit_length.simps) simp
    have e1: "nat (1 + b - 1) = Suc (nat (b - 1))" and e2: "nat (1 + b) = Suc (nat b)"
      using ih(1) by simp_all
    have "2 * 2 ^ nat (b - 1) \<le> n"
      using ih(2) by linarith
    moreover have "n < 2 * 2 ^ nat b"
      using ih(3) by linarith
    ultimately show ?thesis
      unfolding bl e1 e2 using ih(1) by simp
  qed
qed

lemma bit_length_unique:
  assumes "2 ^ k \<le> n" "n < 2 ^ Suc k"
  shows "bit_length n = int k + 1"
proof -
  have n: "0 < n"
    using assms(1) by (smt (verit) zero_less_power)
  note b = bit_length_bounds [OF n]
  have "(2 :: int) ^ nat (bit_length n - 1) < 2 ^ Suc k"
    using b assms(2) by linarith
  then have a: "nat (bit_length n - 1) < Suc k"
    by (simp only: power_strict_increasing_iff [of 2] one_less_numeral_iff semiring_norm)
  have "(2 :: int) ^ k < 2 ^ nat (bit_length n)"
    using b assms(1) by linarith
  then have c: "k < nat (bit_length n)"
    by (simp only: power_strict_increasing_iff [of 2] one_less_numeral_iff semiring_norm)
  show ?thesis
    using a c b by linarith
qed

lemma pow2_nonneg: "0 \<le> e \<Longrightarrow> pow2 e = 2 ^ nat e"
  by (simp add: pow2_def)

lemma pow2_pos: "0 < pow2 e"
  by (simp add: pow2_def)

lemma ilog2_of_int:
  assumes "0 < n"
  shows "ilog2 (of_int n) = bit_length n - 1"
proof -
  note b = bit_length_bounds [OF assms]
  have one: "bit_length 1 = 1"
    by (simp add: bit_length.simps)
  have "pow2 (bit_length n - 1) = of_int (2 ^ nat (bit_length n - 1))"
    using b by (simp add: pow2_nonneg)
  also have "\<dots> \<le> of_int n"
    using b by (simp only: of_int_le_iff)
  finally have le: "pow2 (bit_length n - 1) \<le> of_int n" .
  show ?thesis
    unfolding ilog2_def quotient_of_int using le by (simp add: Let_def one)
qed

lemma round_half_even_of_int: "round_half_even (of_int j) = j"
  by (simp add: round_half_even_def Let_def)

text \<open>A positive integer whose quotient by its unit in the last place is an integer.\<close>

lemma round_to_float_exact:
  assumes n: "0 < n"
    and m: "of_int n / pow2 (max (bit_length n - 53) (- 1074)) = of_int m"
  shows "round_to_float (of_int n) = (if 1025 \<le> bit_length n then PosInf else Fin (of_int n))"
    and "round_to_float (- of_int n) = (if 1025 \<le> bit_length n then NegInf else Fin (- of_int n))"
proof -
  define e where "e = max (bit_length n - 53) (- 1074)"
  have q: "(of_int n :: rat) \<noteq> 0" "\<bar>of_int n :: rat\<bar> = of_int n" "\<not> (of_int n :: rat) < 0"
    "(- of_int n :: rat) \<noteq> 0" "\<bar>- of_int n :: rat\<bar> = of_int n" "(- of_int n :: rat) < 0"
    using n by simp_all
  have il: "ilog2 (of_int n) = bit_length n - 1"
    by (rule ilog2_of_int [OF n])
  have e: "max (bit_length n - 1 - 52) (- 1074) = e"
    unfolding e_def by simp
  have r: "round_half_even (of_int n / pow2 e) = m"
    using m unfolding e_def [symmetric] by (simp only: round_half_even_of_int)
  have v: "of_int m * pow2 e = (of_int n :: rat)"
    using m pow2_pos [of e] unfolding e_def [symmetric] by (simp add: field_simps)
  have c: "(1024 \<le> bit_length n - 1) = (1025 \<le> bit_length n)"
    by linarith
  show "round_to_float (of_int n) = (if 1025 \<le> bit_length n then PosInf else Fin (of_int n))"
    unfolding round_to_float_def Let_def q(2) il unfolding e unfolding r unfolding v il c
    using q(1,3) by simp
  show "round_to_float (- of_int n) = (if 1025 \<le> bit_length n then NegInf else Fin (- of_int n))"
    unfolding round_to_float_def Let_def q(5) il unfolding e unfolding r unfolding v il c
    using q(4,6) by simp
qed

lemma bit_length_small:
  assumes "0 < n" "n < 2 ^ 53"
  shows "bit_length n \<le> 53"
proof -
  note b = bit_length_bounds [OF assms(1)]
  have "(2 :: int) ^ nat (bit_length n - 1) < 2 ^ 53"
    using b assms(2) by linarith
  then have "nat (bit_length n - 1) < 53"
    by (simp only: power_strict_increasing_iff [of 2] one_less_numeral_iff semiring_norm)
  then show ?thesis by linarith
qed

lemma round_to_float_pos_int:
  assumes "0 < n" "n < 2 ^ 53"
  shows "round_to_float (of_int n) = Fin (of_int n)"
    and "round_to_float (- of_int n) = Fin (- of_int n)"
proof -
  note b = bit_length_bounds [OF assms(1)]
  have s: "bit_length n \<le> 53"
    by (rule bit_length_small [OF assms])
  define k where "k = nat (53 - bit_length n)"
  have e: "max (bit_length n - 53) (- 1074) = - int k"
    unfolding k_def using s b by simp
  have p: "pow2 (- int k) = 1 / 2 ^ k"
    by (cases "k = 0") (simp_all add: pow2_def)
  have m: "of_int n / pow2 (max (bit_length n - 53) (- 1074)) = of_int (n * 2 ^ k)"
    unfolding e p by simp
  have nb: "\<not> 1025 \<le> bit_length n"
    using s by simp
  show "round_to_float (of_int n) = Fin (of_int n)"
    using round_to_float_exact(1) [OF assms(1) m] nb by simp
  show "round_to_float (- of_int n) = Fin (- of_int n)"
    using round_to_float_exact(2) [OF assms(1) m] nb by simp
qed

lemma round_to_float_int:
  assumes "\<bar>n\<bar> < 2 ^ 53"
  shows "round_to_float (of_int n) = Fin (of_int n)"
proof -
  consider "n = 0" | "0 < n" | "n < 0" by linarith
  then show ?thesis
  proof cases
    case 1
    then show ?thesis by (simp add: round_to_float_def)
  next
    case 2
    then show ?thesis using assms round_to_float_pos_int(1) [of n] by simp
  next
    case 3
    then have "round_to_float (- of_int (- n)) = Fin (- of_int (- n))"
      using assms by (intro round_to_float_pos_int(2)) simp_all
    then show ?thesis by simp
  qed
qed

lemma fadd_int:
  "\<bar>a + b\<bar> < 2 ^ 53 \<Longrightarrow> fadd (Fin (of_int a)) (Fin (of_int b)) = Fin (of_int (a + b))"
  using round_to_float_int [of "a + b"] by simp

lemma fsub_int:
  assumes "\<bar>a - b\<bar> < 2 ^ 53"
  shows "fsub (Fin (of_int a)) (Fin (of_int b)) = Fin (of_int (a - b))"
proof (cases "b = 0")
  case True
  then show ?thesis by (simp add: fsub_def)
next
  case False
  then show ?thesis
    using round_to_float_int [of "a - b"] assms by (simp add: fsub_def)
qed

lemma float_of_int_small:
  "\<bar>n\<bar> < 2 ^ 53 \<Longrightarrow> float_of_int n = Inr (Fin (of_int n))"
  by (simp add: float_of_int_def round_to_float_int)

lemma integer_geometry:
  assumes "margin p = Fin (of_int m)" "R p = Fin (of_int r)" "ext_above p = Fin (of_int e)"
    and "\<bar>m + r\<bar> < 2 ^ 53" "\<bar>m + r + e\<bar> < 2 ^ 53" "\<bar>m + e\<bar> < 2 ^ 53"
  shows "top_y p = Fin (of_int m)" "baseline p = Fin (of_int (m + r + e))"
    "arc_apex_y p = Fin (of_int (m + e))"
proof -
  show t: "top_y p = Fin (of_int m)"
    by (simp add: top_y_def assms(1))
  show b: "baseline p = Fin (of_int (m + r + e))"
    unfolding baseline_def t assms(2,3) fadd_int [OF assms(4)] by (rule fadd_int [OF assms(5)])
  have "\<bar>m + r + e - r\<bar> < 2 ^ 53"
    using assms(6) by simp
  then have "fsub (Fin (of_int (m + r + e))) (Fin (of_int r)) = Fin (of_int (m + r + e - r))"
    by (rule fsub_int)
  then show "arc_apex_y p = Fin (of_int (m + e))"
    unfolding arc_apex_y_def b assms(2) by simp
qed



lemma bit_length_power2: "bit_length (2 ^ k) = int k + 1"
  by (rule bit_length_unique) simp_all

lemma round_to_float_power2:
  assumes "52 \<le> k"
  shows "round_to_float (2 ^ k) = (if 1024 \<le> k then PosInf else Fin (2 ^ k))"
proof -
  have e: "max (bit_length (2 ^ k) - 53) (- 1074) = int (k - 52)"
    unfolding bit_length_power2 using assms by simp
  have "(2 :: rat) ^ k = 2 ^ (k - 52) * 2 ^ 52"
    using assms by (simp only: power_add [symmetric]) simp
  then have "(2 :: rat) ^ k / 2 ^ (k - 52) = 2 ^ 52"
    by (simp only: nonzero_mult_div_cancel_left power_not_zero zero_neq_numeral
        not_False_eq_True)
  then have m: "of_int (2 ^ k) / pow2 (max (bit_length (2 ^ k) - 53) (- 1074)) =
      (of_int (2 ^ 52) :: rat)"
    unfolding e by (simp only: pow2_nonneg of_nat_0_le_iff nat_int of_int_power of_int_numeral)
  have "round_to_float (of_int (2 ^ k)) =
      (if 1025 \<le> bit_length (2 ^ k) then PosInf else Fin (of_int (2 ^ k)))"
    by (rule round_to_float_exact(1) [OF _ m]) simp
  then show ?thesis
    unfolding bit_length_power2 by (simp only: of_int_power of_int_numeral) simp
qed

lemma round_to_float_2_1023: "round_to_float (2 ^ 1023) = Fin (2 ^ 1023)"
  using round_to_float_power2 [of 1023] by simp

lemma round_to_float_2_1024: "round_to_float (2 ^ 1024) = PosInf"
  using round_to_float_power2 [of 1024] by simp

section \<open>Number formats\<close>

lemma digit_char_cases:
  assumes "0 \<le> d" "d < 10"
  shows "is_digit (digit_char d) \<and> digit_value (digit_char d) = d"
proof -
  have "d = 0 \<or> d = 1 \<or> d = 2 \<or> d = 3 \<or> d = 4 \<or> d = 5 \<or> d = 6 \<or> d = 7 \<or> d = 8 \<or> d = 9"
    using assms by arith
  then show ?thesis
    by (elim disjE) (simp_all add: digit_char_def is_digit_def digit_value_def)
qed

lemma is_digit_digit_char: "0 \<le> d \<Longrightarrow> d < 10 \<Longrightarrow> is_digit (digit_char d)"
  by (simp add: digit_char_cases)

lemma digit_value_digit_char: "0 \<le> d \<Longrightarrow> d < 10 \<Longrightarrow> digit_value (digit_char d) = d"
  by (simp add: digit_char_cases)

lemma is_digit_not_special:
  "is_digit c \<Longrightarrow> c \<noteq> CHR ''.'' \<and> c \<noteq> CHR ''-'' \<and> c \<noteq> CHR '' '' \<and> c \<noteq> CHR '',''"
  by (auto simp: is_digit_def)

lemma int_of_digits_snoc:
  "int_of_digits (s @ [c]) = 10 * int_of_digits s + digit_value c"
  by (simp add: int_of_digits_def)

lemma digits_props:
  "0 \<le> n \<Longrightarrow> digits n \<noteq> [] \<and> list_all is_digit (digits n) \<and> int_of_digits (digits n) = n"
proof (induction n rule: digits.induct)
  case (1 n)
  show ?case
  proof (cases "n < 10")
    case True
    then have "digits n = [digit_char n]" by simp
    then show ?thesis using True "1.prems"
      by (simp add: is_digit_digit_char digit_value_digit_char int_of_digits_def)
  next
    case False
    then have d: "digits n = digits (n div 10) @ [digit_char (n mod 10)]"
      by (subst digits.simps) simp
    have "0 \<le> n div 10" using "1.prems" by simp
    with "1.IH" False have ih: "digits (n div 10) \<noteq> []" "list_all is_digit (digits (n div 10))"
      "int_of_digits (digits (n div 10)) = n div 10"
      by simp_all
    show ?thesis
      unfolding d using ih
      by (simp add: int_of_digits_snoc is_digit_digit_char digit_value_digit_char)
  qed
qed

lemma round_half_even_near: "\<bar>of_int (round_half_even x) - x\<bar> \<le> 1 / 2"
proof -
  define r where "r = x - of_int \<lfloor>x\<rfloor>"
  have r: "0 \<le> r" "r < 1"
    unfolding r_def by linarith+
  have x: "x = of_int \<lfloor>x\<rfloor> + r"
    by (simp add: r_def)
  consider "r < 1 / 2" | "1 / 2 < r" | "r = 1 / 2" by linarith
  then show ?thesis
  proof cases
    case 1
    then have "of_int (round_half_even x) - x = - r"
      by (simp add: round_half_even_def Let_def r_def)
    then show ?thesis using r 1 by linarith
  next
    case 2
    then have "of_int (round_half_even x) - x = 1 - r"
      by (simp add: round_half_even_def Let_def r_def)
    then show ?thesis using r 2 by linarith
  next
    case 3
    then have "of_int (round_half_even x) - x = - r \<or> of_int (round_half_even x) - x = 1 - r"
      by (simp add: round_half_even_def Let_def r_def)
    then show ?thesis using r 3 by linarith
  qed
qed

lemma round_half_even_nonneg: "0 \<le> x \<Longrightarrow> 0 \<le> round_half_even x"
  by (auto simp: round_half_even_def Let_def intro: add_nonneg_nonneg)

lemma format_2f_Fin:
  "format_2f (Fin q) =
     (if q < 0 then ''-'' else '''') @ digits (round_half_even (\<bar>q\<bar> * 100) div 100) @ ''.'' @
     [digit_char (round_half_even (\<bar>q\<bar> * 100) mod 100 div 10),
      digit_char (round_half_even (\<bar>q\<bar> * 100) mod 10)]"
  by (simp add: Let_def)

lemma format_0f_Fin:
  "format_0f (Fin q) = (if q < 0 then ''-'' else '''') @ digits (round_half_even \<bar>q\<bar>)"
  by simp

lemma hd_digits_not_minus: "0 \<le> n \<Longrightarrow> take 1 (digits n @ s) \<noteq> ''-''"
proof -
  assume "0 \<le> n"
  then have a: "digits n \<noteq> []" and b: "list_all is_digit (digits n)"
    using digits_props by blast+
  then obtain c cs where c: "digits n = c # cs" by (cases "digits n") auto
  with b have "is_digit c" by simp
  then show ?thesis using c is_digit_not_special by auto
qed

lemma unsigned_minus: "unsigned (''-'' @ s) = s"
  by (simp add: unsigned_def)

lemma unsigned_digits: "0 \<le> n \<Longrightarrow> unsigned (digits n @ s) = digits n @ s"
  using hd_digits_not_minus [of n s] by (simp add: unsigned_def)

lemma two_decimals_rev_shape:
  "ds \<noteq> [] \<Longrightarrow> list_all is_digit ds \<Longrightarrow> is_digit a \<Longrightarrow> is_digit b \<Longrightarrow>
   two_decimals_rev (rev (ds @ ''.'' @ [a, b]))"
  by simp

lemma decimal_value_shape:
  assumes "list_all is_digit ds"
  shows "of_int (int_of_digits (takeWhile (\<lambda>c. c \<noteq> CHR ''.'') (ds @ ''.'' @ [a, b]))) +
         of_int (int_of_digits (drop 1 (dropWhile (\<lambda>c. c \<noteq> CHR ''.'') (ds @ ''.'' @ [a, b])))) /
           10 ^ length (drop 1 (dropWhile (\<lambda>c. c \<noteq> CHR ''.'') (ds @ ''.'' @ [a, b]))) =
         (of_int (int_of_digits ds) + of_int (10 * digit_value a + digit_value b) / 100 :: rat)"
proof -
  have n: "\<forall>c\<in>set ds. c \<noteq> CHR ''.''"
    using assms is_digit_not_special by (auto simp: list_all_iff)
  have t: "takeWhile (\<lambda>c. c \<noteq> CHR ''.'') (ds @ ''.'' @ [a, b]) = ds"
    using n by (simp add: takeWhile_append2)
  have d: "dropWhile (\<lambda>c. c \<noteq> CHR ''.'') (ds @ ''.'' @ [a, b]) = ''.'' @ [a, b]"
    using n by (simp add: dropWhile_append2)
  show ?thesis
    unfolding t d by (simp add: int_of_digits_def)
qed

lemma two_decimals_text:
  assumes "ds \<noteq> []" "list_all is_digit ds" "is_digit a" "is_digit b"
    and "take 1 ds \<noteq> ''-''"
  shows "two_decimals (ds @ ''.'' @ [a, b])" "two_decimals (''-'' @ ds @ ''.'' @ [a, b])"
proof -
  have u: "unsigned (ds @ ''.'' @ [a, b]) = ds @ ''.'' @ [a, b]"
    using assms(1,5) by (cases ds) (simp_all add: unsigned_def)
  show "two_decimals (ds @ ''.'' @ [a, b])"
    unfolding two_decimals_def u using assms(1-4) by simp
  show "two_decimals (''-'' @ ds @ ''.'' @ [a, b])"
    unfolding two_decimals_def unsigned_minus using assms(1-4) by simp
qed

lemma decimal_value_text:
  assumes "ds \<noteq> []" "list_all is_digit ds" "take 1 ds \<noteq> ''-''"
  shows "decimal_value (ds @ ''.'' @ [a, b]) =
           of_int (int_of_digits ds) + of_int (10 * digit_value a + digit_value b) / 100"
    and "decimal_value (''-'' @ ds @ ''.'' @ [a, b]) =
           - (of_int (int_of_digits ds) + of_int (10 * digit_value a + digit_value b) / 100)"
proof -
  have u: "unsigned (ds @ ''.'' @ [a, b]) = ds @ ''.'' @ [a, b]"
    using assms(1,3) by (cases ds) (simp_all add: unsigned_def)
  have t: "take 1 (ds @ ''.'' @ [a, b]) \<noteq> ''-''"
    using assms(1,3) by (cases ds) simp_all
  show "decimal_value (ds @ ''.'' @ [a, b]) =
           of_int (int_of_digits ds) + of_int (10 * digit_value a + digit_value b) / 100"
    unfolding decimal_value_def Let_def u
    using t decimal_value_shape [OF assms(2), of a b] by simp
  have t': "take 1 (''-'' @ ds @ ''.'' @ [a, b]) = ''-''"
    by simp
  show "decimal_value (''-'' @ ds @ ''.'' @ [a, b]) =
           - (of_int (int_of_digits ds) + of_int (10 * digit_value a + digit_value b) / 100)"
    unfolding decimal_value_def Let_def unsigned_minus
    using t' decimal_value_shape [OF assms(2), of a b] by simp
qed

lemma hundredths_int:
  fixes n :: int
  shows "n = 100 * (n div 100) + (10 * (n mod 100 div 10) + n mod 10)"
proof -
  have a: "n = 100 * (n div 100) + n mod 100"
    by simp
  have b: "n mod 100 = 10 * (n mod 100 div 10) + n mod 100 mod 10"
    by simp
  have c: "n mod 100 mod 10 = n mod 10"
    by (rule mod_mod_cancel) simp
  show ?thesis
    using a b c by linarith
qed

lemma hundredths:
  fixes n :: int
  shows "(of_int (n div 100) + of_int (10 * (n mod 100 div 10) + n mod 10) / 100 :: rat) =
         of_int n / 100"
proof -
  define h where "h = n div 100"
  define l where "l = 10 * (n mod 100 div 10) + n mod 10"
  have "n = 100 * h + l"
    unfolding h_def l_def by (rule hundredths_int)
  then have "(of_int n :: rat) = 100 * of_int h + of_int l"
    by simp
  then show ?thesis
    unfolding h_def [symmetric] l_def [symmetric] by simp
qed

lemma take1_digits: "0 \<le> n \<Longrightarrow> take 1 (digits n) \<noteq> ''-''"
  using hd_digits_not_minus [of n "[]"] by simp

lemma format_2f_finite:
  assumes "is_finite v"
  shows "two_decimals (format_2f v) \<and> \<bar>decimal_value (format_2f v) - float_value v\<bar> \<le> 1 / 200"
proof (cases v)
  case (Fin q)
  define n where "n = round_half_even (\<bar>q\<bar> * 100)"
  define ds where "ds = digits (n div 100)"
  define a where "a = digit_char (n mod 100 div 10)"
  define b where "b = digit_char (n mod 10)"
  have n0: "0 \<le> n"
    unfolding n_def by (rule round_half_even_nonneg) simp
  then have d0: "0 \<le> n div 100" by simp
  have ds: "ds \<noteq> []" "list_all is_digit ds" "int_of_digits ds = n div 100"
    "take 1 ds \<noteq> ''-''"
    unfolding ds_def using digits_props [OF d0] take1_digits [OF d0] by blast+
  have a: "is_digit a" "digit_value a = n mod 100 div 10"
    unfolding a_def by (simp_all add: is_digit_digit_char digit_value_digit_char)
  have b: "is_digit b" "digit_value b = n mod 10"
    unfolding b_def by (simp_all add: is_digit_digit_char digit_value_digit_char)
  have val: "(of_int (int_of_digits ds) + of_int (10 * digit_value a + digit_value b) / 100
      :: rat) = of_int n / 100"
    unfolding ds(3) a(2) b(2) by (rule hundredths)
  have "\<bar>of_int n - \<bar>q\<bar> * 100\<bar> \<le> (1 / 2 :: rat)"
    unfolding n_def by (rule round_half_even_near)
  then have near: "\<bar>of_int n / 100 - \<bar>q\<bar>\<bar> \<le> (1 / 200 :: rat)"
    by linarith
  have fv: "float_value v = q"
    using Fin by simp
  have f: "format_2f v = (if q < 0 then ''-'' else '''') @ ds @ ''.'' @ [a, b]"
    unfolding Fin format_2f_Fin n_def ds_def a_def b_def ..
  show ?thesis
  proof (cases "q < 0")
    case True
    have "format_2f v = ''-'' @ ds @ ''.'' @ [a, b]"
      unfolding f using True by simp
    then have "two_decimals (format_2f v)"
      and dv: "decimal_value (format_2f v) = - (of_int n / 100)"
      using two_decimals_text(2) [OF ds(1,2) a(1) b(1) ds(4)]
        decimal_value_text(2) [OF ds(1,2,4), of a b, unfolded val] by (simp_all only:)
    moreover have "\<bar>decimal_value (format_2f v) - float_value v\<bar> \<le> 1 / 200"
      unfolding dv fv using near True by linarith
    ultimately show ?thesis by (intro conjI)
  next
    case False
    have "format_2f v = ds @ ''.'' @ [a, b]"
      unfolding f using False by simp
    then have "two_decimals (format_2f v)"
      and dv: "decimal_value (format_2f v) = of_int n / 100"
      using two_decimals_text(1) [OF ds(1,2) a(1) b(1) ds(4)]
        decimal_value_text(1) [OF ds(1,2,4), of a b, unfolded val] by (simp_all only:)
    moreover have "\<bar>decimal_value (format_2f v) - float_value v\<bar> \<le> 1 / 200"
      unfolding dv fv using near False by linarith
    ultimately show ?thesis by (intro conjI)
  qed
next
  case NegZero
  have "two_decimals ''-0.00''"
    by (simp add: two_decimals_def unsigned_def is_digit_def)
  moreover have "decimal_value ''-0.00'' = 0"
    by (simp add: decimal_value_def unsigned_def int_of_digits_def digit_value_def)
  ultimately show ?thesis
    using NegZero by simp
qed (use assms in simp_all)

lemma integer_text_digits:
  assumes "ds \<noteq> []" "list_all is_digit ds" "take 1 ds \<noteq> ''-''"
  shows "integer_text ds" "integer_text (''-'' @ ds)"
    and "decimal_value ds = of_int (int_of_digits ds)"
    and "decimal_value (''-'' @ ds) = - of_int (int_of_digits ds)"
proof -
  have u: "unsigned ds = ds"
    using assms(3) by (simp add: unsigned_def)
  have n: "\<forall>c\<in>set ds. c \<noteq> CHR ''.''"
    using assms(2) is_digit_not_special by (auto simp: list_all_iff)
  have t: "takeWhile (\<lambda>c. c \<noteq> CHR ''.'') ds = ds"
    using n by (simp add: takeWhile_eq_all_conv)
  have d: "dropWhile (\<lambda>c. c \<noteq> CHR ''.'') ds = []"
    using n by simp
  show "integer_text ds"
    unfolding integer_text_def u using assms(1,2) by simp
  show "integer_text (''-'' @ ds)"
    unfolding integer_text_def unsigned_minus using assms(1,2) by simp
  show "decimal_value ds = of_int (int_of_digits ds)"
    unfolding decimal_value_def Let_def u t d using assms(3) by (simp add: int_of_digits_def)
  have t': "take 1 (''-'' @ ds) = ''-''" by simp
  show "decimal_value (''-'' @ ds) = - of_int (int_of_digits ds)"
    unfolding decimal_value_def Let_def unsigned_minus t d t' by (simp add: int_of_digits_def)
qed

lemma format_0f_finite:
  assumes "is_finite v"
  shows "integer_text (format_0f v) \<and> \<bar>decimal_value (format_0f v) - float_value v\<bar> \<le> 1 / 2"
proof (cases v)
  case (Fin q)
  define n where "n = round_half_even \<bar>q\<bar>"
  define ds where "ds = digits n"
  have n0: "0 \<le> n"
    unfolding n_def by (rule round_half_even_nonneg) simp
  have ds: "ds \<noteq> []" "list_all is_digit ds" "take 1 ds \<noteq> ''-''" "int_of_digits ds = n"
    unfolding ds_def using digits_props [OF n0] take1_digits [OF n0] by blast+
  have near: "\<bar>of_int n - \<bar>q\<bar>\<bar> \<le> (1 / 2 :: rat)"
    unfolding n_def by (rule round_half_even_near)
  have fv: "float_value v = q"
    using Fin by simp
  have f: "format_0f v = (if q < 0 then ''-'' else '''') @ ds"
    unfolding Fin format_0f_Fin n_def ds_def ..
  note it = integer_text_digits [OF ds(1,2,3), unfolded ds(4)]
  show ?thesis
  proof (cases "q < 0")
    case True
    have "format_0f v = ''-'' @ ds"
      unfolding f using True by simp
    then have "integer_text (format_0f v)"
      and dv: "decimal_value (format_0f v) = - of_int n"
      using it(2,4) by (simp_all only:)
    moreover have "\<bar>decimal_value (format_0f v) - float_value v\<bar> \<le> 1 / 2"
      unfolding dv fv using near True by linarith
    ultimately show ?thesis by (intro conjI)
  next
    case False
    have "format_0f v = ds"
      unfolding f using False by simp
    then have "integer_text (format_0f v)"
      and dv: "decimal_value (format_0f v) = of_int n"
      using it(1,3) by (simp_all only:)
    moreover have "\<bar>decimal_value (format_0f v) - float_value v\<bar> \<le> 1 / 2"
      unfolding dv fv using near False by linarith
    ultimately show ?thesis by (intro conjI)
  qed
next
  case NegZero
  have "integer_text ''-0''"
    by (simp add: integer_text_def unsigned_def is_digit_def)
  moreover have "decimal_value ''-0'' = 0"
    by (simp add: decimal_value_def unsigned_def int_of_digits_def digit_value_def)
  ultimately show ?thesis
    using NegZero by simp
qed (use assms in simp_all)

lemma no_sep_append: "no_sep (a @ b) = (no_sep a \<and> no_sep b)"
  by (simp add: no_sep_def)

lemma no_sep_digits_list: "list_all is_digit ds \<Longrightarrow> no_sep ds"
  using is_digit_not_special by (auto simp: no_sep_def list_all_iff)

lemma no_sep_digits: "0 \<le> n \<Longrightarrow> no_sep (digits n)"
  using digits_props [of n] by (simp add: no_sep_digits_list)

lemma no_sep_format_2f: "no_sep (format_2f v)"
proof (cases v)
  case (Fin q)
  define n where "n = round_half_even (\<bar>q\<bar> * 100)"
  have n0: "0 \<le> n"
    unfolding n_def by (rule round_half_even_nonneg) simp
  then have d0: "0 \<le> n div 100" by simp
  have a: "no_sep (digits (n div 100))"
    by (rule no_sep_digits [OF d0])
  have b: "no_sep [digit_char (n mod 100 div 10), digit_char (n mod 10)]"
    by (rule no_sep_digits_list) (simp add: is_digit_digit_char)
  have c: "no_sep (if q < 0 then ''-'' else '''')" "no_sep ''.''"
    by (simp_all add: no_sep_def)
  show ?thesis
    unfolding Fin format_2f_Fin n_def [symmetric] no_sep_append using a b c by (intro conjI)
qed (simp_all add: no_sep_def)

lemma tokens_not_Nil: "tokens s \<noteq> []"
  by (induction s) (auto split: list.splits)

lemma tokens_no_sep: "no_sep s \<Longrightarrow> tokens s = [s]"
  by (induction s) (auto simp: no_sep_def)

lemma tokens_sep:
  "c = CHR '' '' \<or> c = CHR '','' \<Longrightarrow> tokens (a @ c # b) = tokens a @ tokens b"
proof (induction a)
  case Nil
  then show ?case by auto
next
  case (Cons x a)
  then show ?case
    using tokens_not_Nil [of a] by (cases "tokens a") auto
qed

lemma tokens_word_sep:
  "no_sep a \<Longrightarrow> c = CHR '' '' \<or> c = CHR '','' \<Longrightarrow> tokens (a @ c # b) = a # tokens b"
  by (simp add: tokens_sep tokens_no_sep)

lemma tokens_letter:
  "no_sep [l] \<Longrightarrow> tokens (l # CHR '' '' # b) = [l] # tokens b"
  using tokens_word_sep [of "[l]" "CHR '' ''" b] by simp

lemma tokens_space: "no_sep a \<Longrightarrow> tokens (a @ CHR '' '' # b) = a # tokens b"
  by (simp add: tokens_word_sep)

lemma tokens_comma: "no_sep a \<Longrightarrow> tokens (a @ CHR '','' # b) = a # tokens b"
  by (simp add: tokens_word_sep)

lemma tokens_render_cmd: "tokens (render_cmd c) = cmd_tokens c"
proof (cases c)
  case (MoveTo x y)
  have m: "no_sep ''M''" by (simp add: no_sep_def)
  have "tokens (''M'' @ CHR '' '' # format_2f x @ CHR '','' # format_2f y) =
        ''M'' # format_2f x # tokens (format_2f y)"
    by (simp only: tokens_space tokens_comma no_sep_format_2f m)
  then show ?thesis
    unfolding MoveTo by (simp add: tokens_no_sep no_sep_format_2f del: tokens.simps)
next
  case (VLine y)
  have "tokens (''V'' @ CHR '' '' # format_2f y) = ''V'' # tokens (format_2f y)"
    by (rule tokens_space) (simp add: no_sep_def)
  then show ?thesis
    unfolding VLine by (simp add: tokens_no_sep no_sep_format_2f del: tokens.simps)
next
  case (HLine x)
  have "tokens (''H'' @ CHR '' '' # format_2f x) = ''H'' # tokens (format_2f x)"
    by (rule tokens_space) (simp add: no_sep_def)
  then show ?thesis
    unfolding HLine by (simp add: tokens_no_sep no_sep_format_2f del: tokens.simps)
next
  case (Arc rx ry rot large sweep x y)
  have d: "no_sep (digits (int rot))" "no_sep (digits (int large))" "no_sep (digits (int sweep))"
    by (simp_all add: no_sep_digits del: digits.simps)
  have a: "no_sep ''A''" by (simp add: no_sep_def)
  have "tokens (''A'' @ CHR '' '' # format_2f rx @ CHR '','' # format_2f ry @ CHR '' '' #
          digits (int rot) @ CHR '' '' # digits (int large) @ CHR '' '' # digits (int sweep) @
          CHR '' '' # format_2f x @ CHR '','' # format_2f y) =
        [''A'', format_2f rx, format_2f ry, digits (int rot), digits (int large),
         digits (int sweep), format_2f x, format_2f y]"
    by (simp only: tokens_space tokens_comma tokens_no_sep no_sep_format_2f d a)
  then show ?thesis
    unfolding Arc by (simp del: tokens.simps digits.simps)
qed

lemma tokens_join:
  "cs \<noteq> [] \<Longrightarrow> tokens (join '' '' (map render_cmd cs)) = concat (map cmd_tokens cs)"
proof (induction cs)
  case Nil
  then show ?case by simp
next
  case (Cons c cs)
  show ?case
  proof (cases cs)
    case Nil
    then show ?thesis by (simp add: tokens_render_cmd)
  next
    case (Cons c' cs')
    have "tokens (join '' '' (map render_cmd (c # cs))) =
          tokens (render_cmd c @ CHR '' '' # join '' '' (map render_cmd cs))"
      unfolding Cons by simp
    also have "\<dots> = tokens (render_cmd c) @ tokens (join '' '' (map render_cmd cs))"
      by (rule tokens_sep) simp
    also have "\<dots> = cmd_tokens c @ concat (map cmd_tokens cs)"
      using Cons.IH Cons by (simp add: tokens_render_cmd)
    finally show ?thesis by simp
  qed
qed

lemma path_cmds_not_Nil: "path_cmds p \<noteq> []"
  by (simp add: path_cmds_structure)

lemma tokens_path_d: "tokens (path_d p) = concat (map cmd_tokens (path_cmds p))"
  unfolding path_d_def by (rule tokens_join [OF path_cmds_not_Nil])

section \<open>Properties\<close>

subsection \<open>The default scenario, evaluated\<close>

lemma default_top_y: "top_y (default_params 1) = Fin 16"
  by (simp add: top_y_def default_params_def)

lemma default_baseline: "baseline (default_params 1) = Fin 52"
  by code_simp

lemma default_arc_apex_y: "arc_apex_y (default_params 1) = Fin 28"
  by code_simp

lemma default_float_of_int: "float_of_int 1 = Inr (Fin 1)"
  by code_simp

lemma default_total_width: "total_width (Fin 1) (default_params 1) = Fin 112"
  by code_simp

lemma default_total_height: "total_height (default_params 1) = Fin 96"
  by code_simp

lemma default_path_d:
  "path_d (default_params 1) =
     ''M 16.00,52.00 V 16.00 V 52.00 V 80.00 H 32.00 V 52.00 A 24.00,24.00 0 0 1 80.00,52.00 V 80.00 H 96.00 V 52.00 V 16.00 H 16.00''"
  by code_simp

lemma format_0f_112: "format_0f (Fin 112) = ''112''"
  by code_simp

lemma format_0f_96: "format_0f (Fin 96) = ''96''"
  by code_simp

lemma float_str_default: "float_str (Fin (5 / 2)) = ''2.5''"
  by code_simp

lemma default_ext_above: "fgt (ext_above (default_params 1)) (Fin 0)"
  by code_simp

lemma default_document:
  "arc_shape_svg (default_params 1) =
     Inr (svg_text ''112'' ''96'' ''white''
           ''M 16.00,52.00 V 16.00 V 52.00 V 80.00 H 32.00 V 52.00 A 24.00,24.00 0 0 1 80.00,52.00 V 80.00 H 96.00 V 52.00 V 16.00 H 16.00''
           ''black'' ''2.5'' ''round'' ''round'')"
proof -
  have n: "n_semicircles (default_params 1) = 1"
    and s: "background (default_params 1) = ''white''" "stroke (default_params 1) = ''black''"
      "linecap (default_params 1) = ''round''" "linejoin (default_params 1) = ''round''"
      "stroke_width (default_params 1) = Fin (5 / 2)"
    by (simp_all add: default_params_def)
  have lt: "flt (top_y (default_params 1)) (arc_apex_y (default_params 1))"
    by (simp add: default_top_y default_arc_apex_y)
  show ?thesis
    unfolding arc_shape_svg_def
    by (simp add: n s lt default_ext_above default_float_of_int default_total_width
         default_total_height default_path_d format_0f_112 format_0f_96 float_str_default
         del: format_0f.simps float_str.simps)
qed

text \<open>
  Claim C1. For \<^verbatim>\<open>repetitions=1, radius=24, u_width=16, u_depth=28, extension=12,
  margin=16\<close> (the defaults of the signature) the layout is \<open>top = 16\<close>,
  \<open>baseline = 52\<close>, \<open>arc_apex = 28\<close>, the total width is 112 and the total height 96, and
  the document returned carries them as \<^verbatim>\<open>width="112" height="96"\<close>.
\<close>

theorem C1_default_scenario:
  "top_y (default_params 1) = Fin 16 \<and>
   baseline (default_params 1) = Fin 52 \<and>
   arc_apex_y (default_params 1) = Fin 28 \<and>
   float_of_int (n_semicircles (default_params 1)) = Inr (Fin 1) \<and>
   total_width (Fin 1) (default_params 1) = Fin 112 \<and>
   total_height (default_params 1) = Fin 96 \<and>
   arc_shape_svg (default_params 1) =
     Inr (svg_text ''112'' ''96'' ''white''
           ''M 16.00,52.00 V 16.00 V 52.00 V 80.00 H 32.00 V 52.00 A 24.00,24.00 0 0 1 80.00,52.00 V 80.00 H 96.00 V 52.00 V 16.00 H 16.00''
           ''black'' ''2.5'' ''round'' ''round'')"
  using default_top_y default_baseline default_arc_apex_y default_float_of_int
    default_total_width default_total_height default_document
  by (simp add: default_params_def)

subsection \<open>The overflow example, evaluated\<close>

lemma overflowing_fields:
  "n_semicircles overflowing_width_params = 1"
  "margin overflowing_width_params = Fin 0"
  "R overflowing_width_params = Fin 0"
  "u_width overflowing_width_params = Fin (2 ^ 1023)"
  "u_depth overflowing_width_params = Fin 28"
  "ext_above overflowing_width_params = Fin 12"
  "background overflowing_width_params = ''white''"
  "stroke overflowing_width_params = ''black''"
  "stroke_width overflowing_width_params = Fin (5 / 2)"
  "linecap overflowing_width_params = ''round''"
  "linejoin overflowing_width_params = ''round''"
  by (simp_all add: overflowing_width_params_def default_params_def)

lemma overflow_sums:
  "fadd (Fin 0) (Fin (2 ^ 1023)) = Fin (2 ^ 1023)"
  "fadd (Fin (2 ^ 1023)) (Fin 0) = Fin (2 ^ 1023)"
  "fmul (Fin 1) (Fin (2 ^ 1023)) = Fin (2 ^ 1023)"
  "fadd (Fin (2 ^ 1023)) (Fin (2 ^ 1023)) = PosInf"
  "fmul (Fin 2) (Fin 0) = Fin 0"
proof -
  have d: "(2 :: rat) ^ 1023 + 2 ^ 1023 = 2 ^ 1024"
    by simp
  have z: "(2 :: rat) ^ 1023 \<noteq> 0"
    by simp
  show "fadd (Fin 0) (Fin (2 ^ 1023)) = Fin (2 ^ 1023)"
    by (simp only: fadd.simps add_0 round_to_float_2_1023)
  show "fadd (Fin (2 ^ 1023)) (Fin 0) = Fin (2 ^ 1023)"
    by (simp only: fadd.simps add_0_right round_to_float_2_1023)
  show "fmul (Fin 1) (Fin (2 ^ 1023)) = Fin (2 ^ 1023)"
    using z by (simp only: fmul.simps mult_1 round_to_float_2_1023) simp
  show "fadd (Fin (2 ^ 1023)) (Fin (2 ^ 1023)) = PosInf"
    by (simp only: fadd.simps d round_to_float_2_1024)
  show "fmul (Fin 2) (Fin 0) = Fin 0"
    by simp
qed

lemma overflowing_layout:
  "top_y overflowing_width_params = Fin 0"
  "baseline overflowing_width_params = Fin 12"
  "arc_apex_y overflowing_width_params = Fin 12"
  "total_height overflowing_width_params = Fin 40"
  "total_width (Fin 1) overflowing_width_params = PosInf"
proof -
  note g = integer_geometry [of overflowing_width_params 0 0 12]
  show t: "top_y overflowing_width_params = Fin 0"
    using g(1) by (simp add: overflowing_fields)
  show b: "baseline overflowing_width_params = Fin 12"
    using g(2) by (simp add: overflowing_fields)
  show "arc_apex_y overflowing_width_params = Fin 12"
    using g(3) by (simp add: overflowing_fields)
  have s40: "fadd (Fin 12) (Fin 28) = Fin 40"
    using fadd_int [of 12 28] by simp
  have s40': "fadd (Fin 40) (Fin 0) = Fin 40"
    using fadd_int [of 40 0] by simp
  show "total_height overflowing_width_params = Fin 40"
    unfolding total_height_def b overflowing_fields s40 s40' ..
  have "fadd PosInf (Fin 0) = PosInf"
    by simp
  then show "total_width (Fin 1) overflowing_width_params = PosInf"
    unfolding total_width_def pattern_width_def overflowing_fields
      overflow_sums(5) overflow_sums(2) overflow_sums(3) overflow_sums(4) .
qed

lemma overflowing_path_cmds:
  "path_cmds overflowing_width_params =
     [MoveTo (Fin 0) (Fin 12), VLine (Fin 0), VLine (Fin 12),
      VLine (Fin 40), HLine (Fin (2 ^ 1023)), VLine (Fin 12),
      Arc (Fin 0) (Fin 0) 0 0 1 (Fin (2 ^ 1023)) (Fin 12),
      VLine (Fin 40), HLine PosInf, VLine (Fin 12),
      VLine (Fin 0), HLine (Fin 0)]"
proof -
  have h: "fadd (Fin 12) (Fin 28) = Fin 40"
    using fadd_int [of 12 28] by simp
  show ?thesis
    unfolding path_cmds_structure overflowing_fields
    by (simp only: nat_1 One_nat_def reps.simps cursor_after.simps u_cmds_def arc_cmd_def h
        overflowing_fields overflowing_layout overflow_sums append.simps)
qed

lemma default_path_cmds:
  "path_cmds (default_params 1) =
     [MoveTo (Fin 16) (Fin 52), VLine (Fin 16), VLine (Fin 52),
      VLine (Fin 80), HLine (Fin 32), VLine (Fin 52),
      Arc (Fin 24) (Fin 24) 0 0 1 (Fin 80) (Fin 52),
      VLine (Fin 80), HLine (Fin 96), VLine (Fin 52),
      VLine (Fin 16), HLine (Fin 16)]"
  by code_simp

lemma fle_not_fgt: "fle a b \<Longrightarrow> \<not> fgt a b"
  by (simp add: fle_def fgt_def)

lemma default_geometry_ok: "flt (top_y (default_params 1)) (arc_apex_y (default_params 1))"
  by (simp add: default_top_y default_arc_apex_y)

subsection \<open>Document size\<close>




subsection \<open>Arcs and U-shapes\<close>

text \<open>
  Claim C3. For a repetition count \<open>n \<ge> 1\<close> the path has exactly \<open>n\<close> arc commands and
  exactly \<open>n + 1\<close> completed U-shapes, each a down to \<open>baseline + u_depth\<close>, a right that
  advances the abscissa by \<open>u_width\<close> and an up back to the baseline: the path is the
  left end-cap, \<open>n\<close> times a U and an arc, one more U, and the right end-cap.
\<close>

theorem C3_arcs_and_u_shapes:
  assumes "1 \<le> n_semicircles p"
  shows "int (length (filter is_arc (path_cmds p))) = n_semicircles p \<and>
         int (count_u p (Fin 0, Fin 0) (path_cmds p)) = n_semicircles p + 1 \<and>
         path_cmds p =
           [MoveTo (margin p) (baseline p), VLine (top_y p), VLine (baseline p)] @
           reps p (nat (n_semicircles p)) (margin p) @
           u_cmds p (cursor_after p (nat (n_semicircles p)) (margin p)) @
           [VLine (top_y p), HLine (margin p)]"
proof (intro conjI)
  show "int (length (filter is_arc (path_cmds p))) = n_semicircles p"
    using assms by (simp add: filter_is_arc_path_cmds)
  show "int (count_u p (Fin 0, Fin 0) (path_cmds p)) = n_semicircles p + 1"
    using assms by (simp add: count_u_path_cmds)
  show "path_cmds p =
          [MoveTo (margin p) (baseline p), VLine (top_y p), VLine (baseline p)] @
          reps p (nat (n_semicircles p)) (margin p) @
          u_cmds p (cursor_after p (nat (n_semicircles p)) (margin p)) @
          [VLine (top_y p), HLine (margin p)]"
    by (rule path_cmds_structure)
qed

theorem C3_arcs_and_u_shapes_witness:
  "1 \<le> n_semicircles (default_params 1) \<and>
   int (length (filter is_arc (path_cmds (default_params 1)))) = 1 \<and>
   int (count_u (default_params 1) (Fin 0, Fin 0) (path_cmds (default_params 1))) = 2"
proof -
  have n: "n_semicircles (default_params 1) = 1"
    by (simp add: default_params_def)
  have h: "1 \<le> n_semicircles (default_params 1)"
    by (simp add: n)
  note c3 = C3_arcs_and_u_shapes [OF h]
  have a: "int (length (filter is_arc (path_cmds (default_params 1)))) = 1"
    using c3 [THEN conjunct1] by (simp only: n)
  have b: "int (count_u (default_params 1) (Fin 0, Fin 0) (path_cmds (default_params 1))) = 2"
    using c3 [THEN conjunct2, THEN conjunct1] by (simp only: n)
  show ?thesis
    using h a b by (intro conjI)
qed

subsection \<open>The ends of the path\<close>

text \<open>
  Claim C4. The first command of the path is a move to \<open>(margin, baseline)\<close>, and the
  last one is a horizontal segment to \<open>x = margin\<close>, drawn at height \<open>top\<close>: the second
  command and the last but one are the vertical segments to \<open>top\<close> of the left and the
  right end-cap, and the path ends at \<open>(margin, top)\<close>.
\<close>

theorem C4_path_ends:
  "hd (path_cmds p) = MoveTo (margin p) (baseline p) \<and>
   path_cmds p ! 1 = VLine (top_y p) \<and>
   path_cmds p ! (length (path_cmds p) - 2) = VLine (top_y p) \<and>
   last (path_cmds p) = HLine (margin p) \<and>
   snd (pen_before (path_cmds p) (length (path_cmds p) - 1)) = top_y p \<and>
   foldl pen_step (Fin 0, Fin 0) (path_cmds p) = (margin p, top_y p)"
  by (simp add: path_cmds_structure pen_before_def foldl_pen_step_reps u_cmds_def nth_append)

subsection \<open>The geometry check\<close>

text \<open>
  Claim C5 says that \<open>top < arc_apex\<close> holds for every parameter set that passes the first
  two assertions. In float arithmetic it does not: with margin \<open>2 ^ 53\<close>, radius 0 and
  extension 1 the extension is lost to rounding, \<open>arc_apex\<close> equals \<open>top\<close>, and the third
  assertion fails.
\<close>

theorem C5_counterexample:
  "1 \<le> n_semicircles absorbed_extension_params \<and>
   fgt (ext_above absorbed_extension_params) (Fin 0) \<and>
   top_y absorbed_extension_params = Fin 9007199254740992 \<and>
   arc_apex_y absorbed_extension_params = Fin 9007199254740992 \<and>
   \<not> flt (top_y absorbed_extension_params) (arc_apex_y absorbed_extension_params) \<and>
   arc_shape_svg absorbed_extension_params =
     Inl (AssertionError ''Increase ext_above or margin to rise above the arc apex.'')"
  by code_simp

text \<open>
  Claim C5, amended. For every parameter set that passes the first two assertions
  (repetition count at least 1, extension above 0), the call fails with the
  \<open>GeometryError\<close> assertion if and only if the computed \<open>top\<close> is not strictly less than
  the computed \<open>arc_apex\<close>; and \<open>top < arc_apex\<close> does hold whenever margin, radius and
  extension are integers and \<open>margin + R\<close>, \<open>margin + R + ext_above\<close> and
  \<open>margin + ext_above\<close> are below \<open>2 ^ 53\<close> in magnitude, where nothing is rounded.
\<close>

theorem C5_geometry_error:
  assumes "1 \<le> n_semicircles p" and "fgt (ext_above p) (Fin 0)"
  shows "((\<exists>e. arc_shape_svg p = Inl e \<and> GeometryError e) \<longleftrightarrow>
            \<not> flt (top_y p) (arc_apex_y p)) \<and>
         (\<forall>m r e. margin p = Fin (of_int m) \<and> R p = Fin (of_int r) \<and>
              ext_above p = Fin (of_int e) \<and>
              \<bar>m + r\<bar> < 2 ^ 53 \<and> \<bar>m + r + e\<bar> < 2 ^ 53 \<and> \<bar>m + e\<bar> < 2 ^ 53 \<longrightarrow>
              flt (top_y p) (arc_apex_y p))"
proof (intro conjI allI impI)
  show "(\<exists>e. arc_shape_svg p = Inl e \<and> GeometryError e) \<longleftrightarrow>
          \<not> flt (top_y p) (arc_apex_y p)"
    using assms
    by (auto simp: arc_shape_svg_def GeometryError_def float_of_int_def
          split: sum.splits float.splits)
next
  fix m r e :: int
  assume h: "margin p = Fin (of_int m) \<and> R p = Fin (of_int r) \<and>
      ext_above p = Fin (of_int e) \<and>
      \<bar>m + r\<bar> < 2 ^ 53 \<and> \<bar>m + r + e\<bar> < 2 ^ 53 \<and> \<bar>m + e\<bar> < 2 ^ 53"
  then have g: "top_y p = Fin (of_int m)" "arc_apex_y p = Fin (of_int (m + e))"
    using integer_geometry [of p m r e] by simp_all
  have "0 < e"
    using assms(2) h by (simp add: fgt_def)
  then show "flt (top_y p) (arc_apex_y p)"
    unfolding g by simp
qed

theorem C5_geometry_error_witness:
  "1 \<le> n_semicircles (default_params 1) \<and> fgt (ext_above (default_params 1)) (Fin 0) \<and>
   margin (default_params 1) = Fin (of_int 16) \<and> R (default_params 1) = Fin (of_int 24) \<and>
   ext_above (default_params 1) = Fin (of_int 12) \<and>
   flt (top_y (default_params 1)) (arc_apex_y (default_params 1)) \<and>
   \<not> (\<exists>e. arc_shape_svg (default_params 1) = Inl e \<and> GeometryError e)"
proof -
  have n: "1 \<le> n_semicircles (default_params 1)"
    by (simp add: default_params_def)
  have f: "margin (default_params 1) = Fin (of_int 16)" "R (default_params 1) = Fin (of_int 24)"
    "ext_above (default_params 1) = Fin (of_int 12)"
    by (simp_all add: default_params_def)
  have b: "\<bar>16 + 24 :: int\<bar> < 2 ^ 53" "\<bar>16 + 24 + 12 :: int\<bar> < 2 ^ 53" "\<bar>16 + 12 :: int\<bar> < 2 ^ 53"
    by simp_all
  note c5 = C5_geometry_error [OF n default_ext_above]
  have lt: "flt (top_y (default_params 1)) (arc_apex_y (default_params 1))"
    using c5 [THEN conjunct2, rule_format, of 16 24 12] f b by blast
  have "\<not> (\<exists>e. arc_shape_svg (default_params 1) = Inl e \<and> GeometryError e)"
    using c5 [THEN conjunct1] lt by simp
  then show ?thesis
    using n default_ext_above f lt by (intro conjI)
qed

subsection \<open>Invalid parameters\<close>

text \<open>
  Claim C6. When the repetition count is less than 1 or the extension height is at most
  0, the call fails with one of the two \<open>InvalidParameter\<close> assertions: the result is
  the error and no document. A repetition count of 0 and an extension of 0 are two such
  calls.
\<close>

theorem C6_invalid_parameter:
  assumes "n_semicircles p < 1 \<or> fle (ext_above p) (Fin 0)"
  shows "\<exists>e. arc_shape_svg p = Inl e \<and> InvalidParameter e"
  using assms fle_not_fgt [of "ext_above p" "Fin 0"]
  by (auto simp: arc_shape_svg_def InvalidParameter_def)

theorem C6_invalid_parameter_witness:
  "n_semicircles (default_params 0) < 1 \<and>
   (\<exists>e. arc_shape_svg (default_params 0) = Inl e \<and> InvalidParameter e) \<and>
   fle (ext_above ((default_params 1)\<lparr>ext_above := Fin 0\<rparr>)) (Fin 0) \<and>
   (\<exists>e. arc_shape_svg ((default_params 1)\<lparr>ext_above := Fin 0\<rparr>) = Inl e \<and> InvalidParameter e)"
proof -
  have a: "n_semicircles (default_params 0) < 1"
    by (simp add: default_params_def)
  have b: "fle (ext_above ((default_params 1)\<lparr>ext_above := Fin 0\<rparr>)) (Fin 0)"
    by (simp add: fle_def)
  show ?thesis
    using a b C6_invalid_parameter [of "default_params 0", OF disjI1, OF a]
      C6_invalid_parameter [of "(default_params 1)\<lparr>ext_above := Fin 0\<rparr>", OF disjI2, OF b]
    by blast
qed

subsection \<open>The arcs\<close>

text \<open>
  Claim C7. Every arc command of the path has both radii equal to \<open>R\<close>, rotation 0,
  large-arc flag 0 and sweep flag 1, and goes from the current point \<open>(x, baseline)\<close>
  to \<open>(x + 2 * R, baseline)\<close>; its text is
  \<^verbatim>\<open>A R,R 0 0 1 x+2R,baseline\<close> with the numbers in \<^verbatim>\<open>.2f\<close>.
\<close>

theorem C7_arcs:
  assumes "i < length (path_cmds p)" and "is_arc (path_cmds p ! i)"
  shows "snd (pen_before (path_cmds p) i) = baseline p \<and>
         path_cmds p ! i =
           Arc (R p) (R p) 0 0 1
             (fadd (fst (pen_before (path_cmds p) i)) (fmul (Fin 2) (R p))) (baseline p) \<and>
         render_cmd (path_cmds p ! i) =
           ''A '' @ format_2f (R p) @ '','' @ format_2f (R p) @ '' 0 0 1 '' @
           format_2f (fadd (fst (pen_before (path_cmds p) i)) (fmul (Fin 2) (R p))) @ '','' @
           format_2f (baseline p)"
proof -
  have a: "snd (pen_before (path_cmds p) i) = baseline p"
    and b: "path_cmds p ! i = arc_cmd p (fst (pen_before (path_cmds p) i))"
    using arcs_ok_nth [OF arcs_ok_path_cmds assms] by (simp_all add: pen_before_def)
  have c: "digits 0 = ''0''" "digits 1 = ''1''"
    by (simp_all add: digit_char_def)
  show ?thesis
    using a b by (simp add: arc_cmd_def c del: format_2f.simps digits.simps)
qed

theorem C7_arcs_witness:
  "6 < length (path_cmds (default_params 1)) \<and>
   is_arc (path_cmds (default_params 1) ! 6) \<and>
   pen_before (path_cmds (default_params 1)) 6 = (Fin 32, Fin 52) \<and>
   path_cmds (default_params 1) ! 6 = Arc (Fin 24) (Fin 24) 0 0 1 (Fin 80) (Fin 52) \<and>
   render_cmd (path_cmds (default_params 1) ! 6) =
     ''A '' @ format_2f (R (default_params 1)) @ '','' @ format_2f (R (default_params 1)) @
     '' 0 0 1 '' @
     format_2f (fadd (fst (pen_before (path_cmds (default_params 1)) 6))
                  (fmul (Fin 2) (R (default_params 1)))) @ '','' @
     format_2f (baseline (default_params 1))"
proof -
  have a: "6 < length (path_cmds (default_params 1))"
    and b: "is_arc (path_cmds (default_params 1) ! 6)"
    and c: "pen_before (path_cmds (default_params 1)) 6 = (Fin 32, Fin 52)"
    and d: "path_cmds (default_params 1) ! 6 = Arc (Fin 24) (Fin 24) 0 0 1 (Fin 80) (Fin 52)"
    by (simp_all add: default_path_cmds pen_before_def)
  show ?thesis
    using a b c d C7_arcs [OF a b] by blast
qed

subsection \<open>Number formats\<close>

text \<open>
  Claim C9 says that every coordinate of the path data is rendered with two decimals and
  the width and height as integers. A value that is not finite is not, and finite
  parameters can produce one: with a U-width of \<open>2 ** 1023\<close> and margin and radius 0
  every check passes, the cursor of the second U is \<open>2 ** 1023 + 2 ** 1023\<close>, which
  overflows to infinity, the path data holds \<^verbatim>\<open>H inf\<close> and the document's width is
  \<^verbatim>\<open>inf\<close>.
\<close>

theorem C9_counterexample:
  "is_finite (u_width overflowing_width_params) \<and>
   is_finite (margin overflowing_width_params) \<and>
   is_finite (R overflowing_width_params) \<and>
   is_finite (u_depth overflowing_width_params) \<and>
   is_finite (ext_above overflowing_width_params) \<and>
   path_cmds overflowing_width_params ! 8 = HLine PosInf \<and>
   render_cmd (path_cmds overflowing_width_params ! 8) = ''H inf'' \<and>
   \<not> two_decimals ''inf'' \<and>
   total_width (Fin 1) overflowing_width_params = PosInf \<and>
   \<not> integer_text ''inf'' \<and>
   arc_shape_svg overflowing_width_params =
     Inr (svg_text ''inf'' ''40'' ''white'' (path_d overflowing_width_params)
           ''black'' ''2.5'' ''round'' ''round'')"
proof -
  note f = overflowing_fields
  have fin: "is_finite (u_width overflowing_width_params)"
    "is_finite (margin overflowing_width_params)" "is_finite (R overflowing_width_params)"
    "is_finite (u_depth overflowing_width_params)"
    "is_finite (ext_above overflowing_width_params)"
    unfolding f by simp_all
  have c: "path_cmds overflowing_width_params ! 8 = HLine PosInf"
    unfolding overflowing_path_cmds by simp
  have r: "render_cmd (path_cmds overflowing_width_params ! 8) = ''H inf''"
    unfolding c by simp
  have t: "\<not> two_decimals ''inf''" "\<not> integer_text ''inf''"
    by (simp_all add: two_decimals_def integer_text_def unsigned_def is_digit_def)
  have n: "float_of_int 1 = Inr (Fin 1)"
    using float_of_int_small [of 1] by simp
  have h: "format_0f (Fin 40) = ''40''"
    by code_simp
  have i: "format_0f PosInf = ''inf''"
    by simp
  have d: "arc_shape_svg overflowing_width_params =
      Inr (svg_text ''inf'' ''40'' ''white'' (path_d overflowing_width_params)
            ''black'' ''2.5'' ''round'' ''round'')"
    unfolding arc_shape_svg_def f overflowing_layout n
    by (simp add: fgt_def overflowing_layout del: format_0f.simps float_str.simps)
      (simp only: h i float_str_default)
  show ?thesis
    using fin c r t overflowing_layout(5) d by (intro conjI)
qed

text \<open>
  Claim C9, amended. In a returned document the tokens of the path data are, command by
  command, the command letter and the \<^verbatim>\<open>.2f\<close> formats of its coordinates (and the three
  flags of an arc); every finite coordinate is rendered with exactly two decimals, as a
  decimal within half a hundredth of it; the width and height attributes are the
  \<^verbatim>\<open>.0f\<close> formats of the totals, and a finite total is rendered as an integer within
  one half of it.
\<close>

theorem C9_number_formats:
  assumes "arc_shape_svg p = Inr doc"
  shows "(\<exists>nf. float_of_int (n_semicircles p) = Inr nf \<and>
            doc = svg_text (format_0f (total_width nf p)) (format_0f (total_height p))
                    (background p) (path_d p) (stroke p) (float_str (stroke_width p))
                    (linecap p) (linejoin p) \<and>
            (is_finite (total_width nf p) \<longrightarrow>
               integer_text (format_0f (total_width nf p)) \<and>
               \<bar>decimal_value (format_0f (total_width nf p)) - float_value (total_width nf p)\<bar>
                 \<le> 1 / 2) \<and>
            (is_finite (total_height p) \<longrightarrow>
               integer_text (format_0f (total_height p)) \<and>
               \<bar>decimal_value (format_0f (total_height p)) - float_value (total_height p)\<bar>
                 \<le> 1 / 2)) \<and>
         tokens (path_d p) = concat (map cmd_tokens (path_cmds p)) \<and>
         (\<forall>c\<in>set (path_cmds p). \<forall>v\<in>set (coords c). is_finite v \<longrightarrow>
            two_decimals (format_2f v) \<and>
            \<bar>decimal_value (format_2f v) - float_value v\<bar> \<le> 1 / 200)"
proof -
  obtain nf where nf: "float_of_int (n_semicircles p) = Inr nf"
    and doc: "doc = svg_text (format_0f (total_width nf p)) (format_0f (total_height p))
                    (background p) (path_d p) (stroke p) (float_str (stroke_width p))
                    (linecap p) (linejoin p)"
    using assms by (auto simp: arc_shape_svg_def split: if_splits sum.splits)
  show ?thesis
    using nf doc format_0f_finite format_2f_finite tokens_path_d by blast
qed

theorem C9_number_formats_witness:
  "arc_shape_svg (default_params 1) =
     Inr (svg_text ''112'' ''96'' ''white''
           ''M 16.00,52.00 V 16.00 V 52.00 V 80.00 H 32.00 V 52.00 A 24.00,24.00 0 0 1 80.00,52.00 V 80.00 H 96.00 V 52.00 V 16.00 H 16.00''
           ''black'' ''2.5'' ''round'' ''round'') \<and>
   tokens (path_d (default_params 1)) = concat (map cmd_tokens (path_cmds (default_params 1))) \<and>
   HLine (Fin 32) \<in> set (path_cmds (default_params 1)) \<and>
   Fin 32 \<in> set (coords (HLine (Fin 32))) \<and>
   is_finite (Fin 32) \<and>
   two_decimals (format_2f (Fin 32)) \<and>
   \<bar>decimal_value (format_2f (Fin 32)) - float_value (Fin 32)\<bar> \<le> 1 / 200"
proof -
  note c9 = C9_number_formats [OF default_document]
  have t: "tokens (path_d (default_params 1)) =
      concat (map cmd_tokens (path_cmds (default_params 1)))"
    using c9 by blast
  have m: "HLine (Fin 32) \<in> set (path_cmds (default_params 1))"
    by (simp add: default_path_cmds)
  have v: "Fin 32 \<in> set (coords (HLine (Fin 32)))" "is_finite (Fin 32)"
    by simp_all
  have f: "two_decimals (format_2f (Fin 32)) \<and>
      \<bar>decimal_value (format_2f (Fin 32)) - float_value (Fin 32)\<bar> \<le> 1 / 200"
    using c9 m v by blast
  show ?thesis
    using default_document t m v f by (intro conjI) (simp_all only:)
qed

subsection \<open>When a document is returned\<close>

text \<open>
  Claim C10 says that a repetition count of at least 1 and an extension above 0 are
  enough for a document, whatever the radius and the margin. They are not: with the
  negative radius \<open>-24\<close> and the extension \<open>2 ** -60\<close> both checks pass, the extension is
  lost to rounding in the baseline \<open>-8\<close>, \<open>arc_apex\<close> equals \<open>top\<close>, and the third
  assertion fails.
\<close>

theorem C10_counterexample:
  "1 \<le> n_semicircles negative_radius_params \<and>
   fgt (ext_above negative_radius_params) (Fin 0) \<and>
   baseline negative_radius_params = Fin (- 8) \<and>
   top_y negative_radius_params = Fin 16 \<and>
   arc_apex_y negative_radius_params = Fin 16 \<and>
   arc_shape_svg negative_radius_params =
     Inl (AssertionError ''Increase ext_above or margin to rise above the arc apex.'')"
  by code_simp

text \<open>
  Claim C10, amended. For every input with a repetition count of at least 1 and an
  extension above 0, a document is returned exactly when the computed \<open>top\<close> is strictly
  less than the computed \<open>arc_apex\<close> and the repetition count converts to a float; the
  radius, the widths, the depth, the margin and the styles are not checked otherwise. In
  particular a document is returned whenever the repetition count is below \<open>2 ^ 53\<close> and
  margin, radius and extension are integers, of either sign for the margin and the
  radius, with \<open>margin + R\<close>, \<open>margin + R + ext_above\<close> and \<open>margin + ext_above\<close> below
  \<open>2 ^ 53\<close> in magnitude.
\<close>

theorem C10_returns_document:
  assumes "1 \<le> n_semicircles p" and "fgt (ext_above p) (Fin 0)"
  shows "((\<exists>doc. arc_shape_svg p = Inr doc) \<longleftrightarrow>
            flt (top_y p) (arc_apex_y p) \<and> (\<exists>nf. float_of_int (n_semicircles p) = Inr nf)) \<and>
         (\<forall>m r e. margin p = Fin (of_int m) \<and> R p = Fin (of_int r) \<and>
              ext_above p = Fin (of_int e) \<and>
              \<bar>m + r\<bar> < 2 ^ 53 \<and> \<bar>m + r + e\<bar> < 2 ^ 53 \<and> \<bar>m + e\<bar> < 2 ^ 53 \<and>
              n_semicircles p < 2 ^ 53 \<longrightarrow>
              (\<exists>doc. arc_shape_svg p = Inr doc))"
proof (intro conjI allI impI)
  show iff: "(\<exists>doc. arc_shape_svg p = Inr doc) \<longleftrightarrow>
          flt (top_y p) (arc_apex_y p) \<and> (\<exists>nf. float_of_int (n_semicircles p) = Inr nf)"
    using assms by (auto simp: arc_shape_svg_def split: sum.splits)
  fix m r e :: int
  assume h: "margin p = Fin (of_int m) \<and> R p = Fin (of_int r) \<and>
      ext_above p = Fin (of_int e) \<and>
      \<bar>m + r\<bar> < 2 ^ 53 \<and> \<bar>m + r + e\<bar> < 2 ^ 53 \<and> \<bar>m + e\<bar> < 2 ^ 53 \<and>
      n_semicircles p < 2 ^ 53"
  then have g: "top_y p = Fin (of_int m)" "arc_apex_y p = Fin (of_int (m + e))"
    using integer_geometry [of p m r e] by simp_all
  have "0 < e"
    using assms(2) h by (simp add: fgt_def)
  then have lt: "flt (top_y p) (arc_apex_y p)"
    unfolding g by simp
  have "\<bar>n_semicircles p\<bar> < 2 ^ 53"
    using assms(1) h by simp
  then have "float_of_int (n_semicircles p) = Inr (Fin (of_int (n_semicircles p)))"
    by (rule float_of_int_small)
  then show "\<exists>doc. arc_shape_svg p = Inr doc"
    using iff lt by blast
qed

theorem C10_returns_document_witness:
  "1 \<le> n_semicircles negative_geometry_params \<and>
   fgt (ext_above negative_geometry_params) (Fin 0) \<and>
   margin negative_geometry_params = Fin (of_int (- 2)) \<and>
   R negative_geometry_params = Fin (of_int (- 3)) \<and>
   ext_above negative_geometry_params = Fin (of_int 12) \<and>
   n_semicircles negative_geometry_params < 2 ^ 53 \<and>
   (\<exists>doc. arc_shape_svg negative_geometry_params = Inr doc)"
proof -
  have n: "1 \<le> n_semicircles negative_geometry_params"
    "n_semicircles negative_geometry_params < 2 ^ 53"
    by (simp_all add: negative_geometry_params_def default_params_def)
  have f: "margin negative_geometry_params = Fin (of_int (- 2))"
    "R negative_geometry_params = Fin (of_int (- 3))"
    "ext_above negative_geometry_params = Fin (of_int 12)"
    by (simp_all add: negative_geometry_params_def default_params_def)
  have e: "fgt (ext_above negative_geometry_params) (Fin 0)"
    by (simp add: negative_geometry_params_def default_params_def fgt_def)
  have b: "\<bar>- 2 + - 3 :: int\<bar> < 2 ^ 53" "\<bar>- 2 + - 3 + 12 :: int\<bar> < 2 ^ 53"
    "\<bar>- 2 + 12 :: int\<bar> < 2 ^ 53"
    by simp_all
  note c10 = C10_returns_document [OF n(1) e]
  have "\<exists>doc. arc_shape_svg negative_geometry_params = Inr doc"
    using c10 [THEN conjunct2, rule_format, of "- 2" "- 3" 12] f b n(2) by blast
  then show ?thesis
    using n e f by (intro conjI)
qed

end
